theory Spec2Isabelle
  imports Complex_Main
begin

section \<open>Floating-point values\<close>

text \<open>
  Both scripts compute on NumPy arrays and Python floats. A value is either NaN or a
  finite number; every arithmetic operation rounds its exact result to the nearest
  number with a \<open>p\<close>-bit significand, ties to even (\<open>p = 53\<close> for Python floats and
  float64 arrays, \<open>p = 24\<close> for float32 arrays). The exponent range is unbounded:
  overflow to infinity and subnormal numbers are outside the model.
\<close>

datatype npfloat = NaN | Fin real

datatype error = ValueError | ZeroDivisionError | IndexError | CvError

datatype dtype = Float32 | Float64

fun prec :: "dtype \<Rightarrow> nat" where
  "prec Float32 = 24"
| "prec Float64 = 53"

text \<open>Rounding to the nearest integer, ties to even (also OpenCV's \<open>cvRound\<close>).\<close>

definition rne :: "real \<Rightarrow> int" where
  "rne x = (let f = \<lfloor>x\<rfloor>; d = x - of_int f in
            if d < 1 / 2 then f
            else if 1 / 2 < d then f + 1
            else if even f then f else f + 1)"

text \<open>The binary exponent of a positive number: \<open>2 ^ expo x \<le> x < 2 ^ (expo x + 1)\<close>.\<close>

function expo :: "real \<Rightarrow> int" where
  "expo x = (if x \<le> 0 then 0
             else if 2 \<le> x then expo (x / 2) + 1
             else if x < 1 then expo (2 * x) - 1
             else 0)"
  by pat_completeness auto
termination
proof (relation "measure (\<lambda>x. if 1 \<le> x then nat \<lfloor>x\<rfloor> else nat \<lceil>1 / x\<rceil> + 1)")
  show "wf (measure (\<lambda>x::real. if 1 \<le> x then nat \<lfloor>x\<rfloor> else nat \<lceil>1 / x\<rceil> + 1))"
    by simp
next
  fix x :: real
  assume "\<not> x \<le> 0" and big: "2 \<le> x"
  have "\<lfloor>x / 2\<rfloor> < \<lfloor>x\<rfloor>" using big by linarith
  moreover have "1 \<le> x / 2" using big by simp
  moreover have "0 < \<lfloor>x\<rfloor>" using big by linarith
  ultimately show "(x / 2, x) \<in> measure (\<lambda>x. if 1 \<le> x then nat \<lfloor>x\<rfloor> else nat \<lceil>1 / x\<rceil> + 1)"
    using big by simp
next
  fix x :: real
  assume a: "\<not> x \<le> 0" "\<not> 2 \<le> x" "x < 1"
  show "(2 * x, x) \<in> measure (\<lambda>x. if 1 \<le> x then nat \<lfloor>x\<rfloor> else nat \<lceil>1 / x\<rceil> + 1)"
  proof (cases "1 \<le> 2 * x")
    case True
    then have "\<lfloor>2 * x\<rfloor> = 1" using a by linarith
    moreover have "1 < 1 / x" using a by simp
    then have "2 \<le> \<lceil>1 / x\<rceil>" by linarith
    ultimately show ?thesis using True a by simp
  next
    case False
    then have gt: "2 < 1 / x" using a by (simp add: field_simps)
    have "1 / (2 * x) = (1 / x) / 2" by simp
    then have "\<lceil>1 / (2 * x)\<rceil> < \<lceil>1 / x\<rceil>" using gt by linarith
    moreover have "0 < \<lceil>1 / (2 * x)\<rceil>" using a by (simp add: field_simps)
    ultimately show ?thesis using False a by simp
  qed
qed

declare expo.simps [simp del]

definition round_to :: "nat \<Rightarrow> real \<Rightarrow> real" where
  "round_to p x = (if x = 0 then 0
     else let u = 2 powi (expo \<bar>x\<bar> - int p + 1) in of_int (rne (x / u)) * u)"

text \<open>Python float arithmetic is binary64; array arithmetic rounds to the array's dtype.\<close>

definition py :: "real \<Rightarrow> real" where
  "py x = round_to 53 x"

definition rnd :: "dtype \<Rightarrow> real \<Rightarrow> real" where
  "rnd d x = round_to (prec d) x"

fun fadd :: "dtype \<Rightarrow> npfloat \<Rightarrow> npfloat \<Rightarrow> npfloat" where
  "fadd d (Fin x) (Fin y) = Fin (rnd d (x + y))"
| "fadd d _ _ = NaN"

fun fsub :: "dtype \<Rightarrow> npfloat \<Rightarrow> npfloat \<Rightarrow> npfloat" where
  "fsub d (Fin x) (Fin y) = Fin (rnd d (x - y))"
| "fsub d _ _ = NaN"

text \<open>IEEE comparison: false as soon as one side is NaN.\<close>

fun fle :: "npfloat \<Rightarrow> npfloat \<Rightarrow> bool" where
  "fle (Fin x) (Fin y) = (x \<le> y)"
| "fle _ _ = False"

text \<open>\<open>np.maximum\<close> and \<open>np.minimum\<close> propagate NaN; \<open>np.fmin\<close> ignores it.\<close>

fun np_maximum :: "npfloat \<Rightarrow> npfloat \<Rightarrow> npfloat" where
  "np_maximum (Fin x) (Fin y) = Fin (max x y)"
| "np_maximum _ _ = NaN"

fun np_minimum :: "npfloat \<Rightarrow> npfloat \<Rightarrow> npfloat" where
  "np_minimum (Fin x) (Fin y) = Fin (min x y)"
| "np_minimum _ _ = NaN"

fun np_fmin :: "npfloat \<Rightarrow> npfloat \<Rightarrow> npfloat" where
  "np_fmin NaN b = b"
| "np_fmin a NaN = a"
| "np_fmin (Fin x) (Fin y) = Fin (min x y)"

section \<open>Arrays\<close>

text \<open>
  A two-dimensional array is the list of its rows; \<open>concat\<close> is its row-major
  flattening. The reductions raise \<open>ValueError\<close> on an array without elements.
  A raster of an integer dtype is a grid without NaN whose arithmetic is float64.
\<close>

type_synonym grid = "npfloat list list"

definition shape :: "grid \<Rightarrow> nat \<times> nat" where
  "shape g = (case g of [] \<Rightarrow> (0, 0) | r # _ \<Rightarrow> (length g, length r))"

definition np_min :: "grid \<Rightarrow> error + npfloat" where
  "np_min g = (case concat g of [] \<Rightarrow> Inl ValueError | x # xs \<Rightarrow> Inr (foldl np_minimum x xs))"

definition np_nanmin :: "grid \<Rightarrow> error + npfloat" where
  "np_nanmin g = (case concat g of [] \<Rightarrow> Inl ValueError | x # xs \<Rightarrow> Inr (foldl np_fmin x xs))"

definition np_nan_to_num :: "grid \<Rightarrow> npfloat \<Rightarrow> grid" where
  "np_nan_to_num g nan = map (map (\<lambda>x. case x of NaN \<Rightarrow> nan | Fin v \<Rightarrow> Fin v)) g"

text \<open>
  \<open>np.argmax\<close> on the flattened array: the running maximum is replaced only by an
  element that is not \<open>\<le>\<close> it, and the scan stops at the first NaN.
\<close>

fun argmax_loop :: "npfloat \<Rightarrow> nat \<Rightarrow> nat \<Rightarrow> npfloat list \<Rightarrow> nat" where
  "argmax_loop mp max_ind i [] = max_ind"
| "argmax_loop mp max_ind i (x # xs) =
     (if mp = NaN then max_ind
      else if \<not> fle x mp then argmax_loop x i (i + 1) xs
      else argmax_loop mp max_ind (i + 1) xs)"

definition np_argmax :: "grid \<Rightarrow> error + nat" where
  "np_argmax g = (case concat g of [] \<Rightarrow> Inl ValueError | x # xs \<Rightarrow> Inr (argmax_loop x 0 1 xs))"

definition np_unravel_index :: "nat \<Rightarrow> nat \<times> nat \<Rightarrow> error + nat \<times> nat" where
  "np_unravel_index k shp =
     (case shp of (r, c) \<Rightarrow> if k < r * c then Inr (k div c, k mod c) else Inl ValueError)"

definition index2 :: "'a list list \<Rightarrow> nat \<times> nat \<Rightarrow> error + 'a" where
  "index2 g pos =
     (case pos of (i, j) \<Rightarrow>
        if i < length g \<and> j < length (g ! i) then Inr (g ! i ! j) else Inl IndexError)"

section \<open>Loading the elevation raster\<close>

text \<open>
  \<open>load_dem\<close> (uji\_coba\_banjir\_TIF.py, line 29; the same statement is line 20 of
  banjir\_new3.py): \<open>elevation = np.nan_to_num(elevation, nan=np.nanmin(elevation))\<close>.
\<close>

definition load_dem :: "grid \<Rightarrow> error + grid" where
  "load_dem elevation =
     (case np_nanmin elevation of
        Inl e \<Rightarrow> Inl e
      | Inr m \<Rightarrow> Inr (np_nan_to_num elevation m))"

section \<open>Rainfall and water level\<close>

definition rainfall_intensity :: "int \<Rightarrow> real" where
  "rainfall_intensity rain_mm_per_hour = py (py (of_int rain_mm_per_hour / 3600) / 1000)"

definition duration :: "int \<Rightarrow> int" where
  "duration duration_minutes = duration_minutes * 60"

definition inflow_volume :: "int \<Rightarrow> int \<Rightarrow> real" where
  "inflow_volume rain_mm_per_hour duration_minutes =
     py (rainfall_intensity rain_mm_per_hour * py (of_int (duration duration_minutes)))"

text \<open>
  \<open>np.maximum(0, volume - elevation + np.min(elevation))\<close>: the Python float
  \<open>volume\<close> is converted to the array's dtype, the subtraction and the addition are
  elementwise, in that order.
\<close>

definition water_level :: "dtype \<Rightarrow> real \<Rightarrow> grid \<Rightarrow> error + grid" where
  "water_level d volume elevation =
     (case np_min elevation of
        Inl e \<Rightarrow> Inl e
      | Inr m \<Rightarrow>
          Inr (map (map (\<lambda>e. np_maximum (Fin 0) (fadd d (fsub d (Fin (rnd d volume)) e) m)))
                 elevation))"

text \<open>The animation frames: \<open>volume_t = inflow_volume * (t / steps)\<close> for \<open>t = 1..steps\<close>.\<close>

definition time_fraction :: "nat \<Rightarrow> nat \<Rightarrow> real" where
  "time_fraction t steps = py (real t / real steps)"

definition volume_t :: "real \<Rightarrow> real \<Rightarrow> real" where
  "volume_t inflow fraction = py (inflow * fraction)"

definition frames :: "dtype \<Rightarrow> real \<Rightarrow> nat \<Rightarrow> grid \<Rightarrow> (error + grid) list" where
  "frames d inflow steps elevation =
     map (\<lambda>t. water_level d (volume_t inflow (time_fraction t steps)) elevation)
       [1..<steps + 1]"

text \<open>The peak: \<open>max_pos = np.unravel_index(np.argmax(w), w.shape)\<close>, \<open>max_water = w[max_pos]\<close>.\<close>

definition peak :: "grid \<Rightarrow> error + (nat \<times> nat) \<times> npfloat" where
  "peak w =
     (case np_argmax w of
        Inl e \<Rightarrow> Inl e
      | Inr k \<Rightarrow>
          (case np_unravel_index k (shape w) of
             Inl e \<Rightarrow> Inl e
           | Inr max_pos \<Rightarrow>
               (case index2 w max_pos of
                  Inl e \<Rightarrow> Inl e
                | Inr max_water \<Rightarrow> Inr (max_pos, max_water))))"

definition estimate :: "dtype \<Rightarrow> int \<Rightarrow> int \<Rightarrow> grid \<Rightarrow> error + grid \<times> (nat \<times> nat) \<times> npfloat" where
  "estimate d rain_mm_per_hour duration_minutes elevation =
     (case water_level d (inflow_volume rain_mm_per_hour duration_minutes) elevation of
        Inl e \<Rightarrow> Inl e
      | Inr w \<Rightarrow> (case peak w of Inl e \<Rightarrow> Inl e | Inr pk \<Rightarrow> Inr (w, pk)))"

section \<open>Coordinates\<close>

text \<open>
  \<open>np.linspace(start, stop, num)\<close> in Python float arithmetic: the samples are
  \<open>i * step + start\<close>, and for \<open>num > 1\<close> the last one is overwritten by \<open>stop\<close>;
  for \<open>num = 1\<close> there is no step and the only sample is \<open>start\<close>.
\<close>

definition np_linspace :: "real \<Rightarrow> real \<Rightarrow> nat \<Rightarrow> real list" where
  "np_linspace start stop num =
     (let divisor = int num - 1;
          delta = py (stop - start);
          y0 = map real [0..<num];
          y1 = (if 0 < divisor then
                  (let step = py (delta / of_int divisor) in
                   if step = 0 then map (\<lambda>v. py (py (v / of_int divisor) * delta)) y0
                   else map (\<lambda>v. py (v * step)) y0)
                else map (\<lambda>v. py (v * delta)) y0);
          y2 = map (\<lambda>v. py (v + start)) y1
      in if 1 < num then y2[num - 1 := stop] else y2)"

definition np_meshgrid :: "real list \<Rightarrow> real list \<Rightarrow> real list list \<times> real list list" where
  "np_meshgrid x y = (replicate (length y) x, map (\<lambda>v. replicate (length x) v) y)"

record bounds =
  b_left :: real
  b_right :: real
  b_top :: real
  b_bottom :: real

text \<open>
  \<open>x = np.linspace(bounds.left, bounds.right, cols)\<close>,
  \<open>y = np.linspace(bounds.top, bounds.bottom, rows)\<close>, \<open>X, Y = np.meshgrid(x, y)\<close>.
\<close>

definition coordinates :: "bounds \<Rightarrow> nat \<times> nat \<Rightarrow> real list list \<times> real list list" where
  "coordinates b shp =
     (case shp of (rows, cols) \<Rightarrow>
        np_meshgrid (np_linspace (b_left b) (b_right b) cols)
                    (np_linspace (b_top b) (b_bottom b) rows))"

section \<open>Resizing (uji\_coba\_banjir\_TIF.py)\<close>

datatype mode = Ringan | Detail

definition MAX_RES :: "mode \<Rightarrow> nat" where
  "MAX_RES m = (if m = Ringan then 150 else 300)"

definition ANIM_STEPS :: "mode \<Rightarrow> nat" where
  "ANIM_STEPS m = (if m = Ringan then 10 else 20)"

text \<open>\<open>scale = min(MAX_RES / elevation.shape[0], MAX_RES / elevation.shape[1])\<close>.\<close>

definition scale :: "mode \<Rightarrow> nat \<times> nat \<Rightarrow> error + real" where
  "scale m shp =
     (case shp of (rows, cols) \<Rightarrow>
        if rows = 0 \<or> cols = 0 then Inl ZeroDivisionError
        else Inr (min (py (real (MAX_RES m) / real rows)) (py (real (MAX_RES m) / real cols))))"

text \<open>
  \<open>cv2.resize(src, (0, 0), fx, fy, interpolation=cv2.INTER_AREA)\<close>. The source is the
  elevation array as loaded, so its depth is the raster's: uint8, int8, uint16, int16,
  int32, float32 or float64 (a raster of another dtype has no depth of its own and is
  outside the model).
\<close>

datatype depth = CV_8U | CV_8S | CV_16U | CV_16S | CV_32S | CV_32F | CV_64F

text \<open>
  OpenCV's tables of resize functions, for area interpolation and for the bilinear
  interpolation that replaces it when the array is enlarged, have no entry for the
  depths \<open>CV_8S\<close> and \<open>CV_32S\<close>.
\<close>

fun resize_kernel :: "depth \<Rightarrow> bool" where
  "resize_kernel CV_8S = False"
| "resize_kernel CV_32S = False"
| "resize_kernel _ = True"

definition cvRound :: "real \<Rightarrow> int" where
  "cvRound x = rne x"

text \<open>
  The call computes the output size as
  \<open>(cvRound(fx * src.cols), cvRound(fy * src.rows))\<close> and rejects an empty source, a
  non-positive factor and an empty output size. A source that already has the output
  size is copied; otherwise the call fails when the depth has no resize function.
  Only the size of the result is modelled; the interpolated cell values are not.
\<close>

definition cv2_resize_shape :: "depth \<Rightarrow> nat \<times> nat \<Rightarrow> real \<Rightarrow> real \<Rightarrow> error + nat \<times> nat" where
  "cv2_resize_shape dp shp fx fy =
     (case shp of (rows, cols) \<Rightarrow>
        if rows = 0 \<or> cols = 0 then Inl CvError
        else if \<not> 0 < fx \<or> \<not> 0 < fy then Inl CvError
        else
          (let width = cvRound (py (real cols * fx));
               height = cvRound (py (real rows * fy))
           in if width \<le> 0 \<or> height \<le> 0 then Inl CvError
              else if (nat height, nat width) = (rows, cols) then Inr (rows, cols)
              else if \<not> resize_kernel dp then Inl CvError
              else Inr (nat height, nat width)))"

definition resized_shape :: "depth \<Rightarrow> mode \<Rightarrow> nat \<times> nat \<Rightarrow> error + nat \<times> nat" where
  "resized_shape dp m shp =
     (case scale m shp of
        Inl e \<Rightarrow> Inl e
      | Inr s \<Rightarrow> cv2_resize_shape dp shp s s)"

section \<open>Grids without NaN\<close>

definition no_nan :: "grid \<Rightarrow> bool" where
  "no_nan g = (\<forall>row \<in> set g. \<forall>x \<in> set row. x \<noteq> NaN)"

definition cells :: "grid \<Rightarrow> real set" where
  "cells g = {x. Fin x \<in> set (concat g)}"

text \<open>A NumPy array is rectangular: every row has the number of columns of the shape.\<close>

definition rect :: "'a list list \<Rightarrow> nat \<Rightarrow> bool" where
  "rect g c = (\<forall>row \<in> set g. length row = c)"

text \<open>
  Index \<open>k\<close> is the first position of the maximum of \<open>ys\<close>: every element is
  \<open>\<le>\<close> the one at \<open>k\<close> and no earlier element equals it.
\<close>

definition first_max :: "npfloat list \<Rightarrow> nat \<Rightarrow> bool" where
  "first_max ys k = (k < length ys \<and> (\<forall>j < length ys. fle (ys ! j) (ys ! k))
                      \<and> (\<forall>j < k. ys ! j \<noteq> ys ! k))"

section \<open>Properties of rounding\<close>

lemma rne_bounds: "\<bar>of_int (rne x) - x\<bar> \<le> 1 / 2"
  unfolding rne_def Let_def by (auto; linarith)

lemma rne_of_int [simp]: "rne (of_int n) = n"
  by (simp add: rne_def)

lemma rne_mono: "x \<le> y \<Longrightarrow> rne x \<le> rne y"
proof -
  assume le: "x \<le> y"
  have fl: "\<lfloor>x\<rfloor> \<le> \<lfloor>y\<rfloor>" using le by (rule floor_mono)
  show ?thesis
  proof (cases "\<lfloor>x\<rfloor> = \<lfloor>y\<rfloor>")
    case True
    then show ?thesis using le unfolding rne_def Let_def by auto
  next
    case False
    then have "\<lfloor>x\<rfloor> + 1 \<le> \<lfloor>y\<rfloor>" using fl by simp
    moreover have "rne x \<le> \<lfloor>x\<rfloor> + 1" unfolding rne_def Let_def by auto
    moreover have "\<lfloor>y\<rfloor> \<le> rne y" unfolding rne_def Let_def by auto
    ultimately show ?thesis by linarith
  qed
qed

lemma rne_minus: "rne (- x) = - rne x"
proof (cases "x = of_int \<lfloor>x\<rfloor>")
  case True
  then obtain n :: int where "x = of_int n" ..
  then have "- x = of_int (- n)" by simp
  then show ?thesis using \<open>x = of_int n\<close> by (metis rne_of_int)
next
  case False
  then have lt: "of_int \<lfloor>x\<rfloor> < x" by linarith
  have fl: "\<lfloor>- x\<rfloor> = - \<lfloor>x\<rfloor> - 1" using lt by linarith
  have ev: "even (- \<lfloor>x\<rfloor> - 1) \<longleftrightarrow> odd \<lfloor>x\<rfloor>" by simp
  show ?thesis unfolding rne_def Let_def fl ev by (auto; linarith)
qed

lemma rne_le: "x < of_int n + 1 / 2 \<Longrightarrow> rne x \<le> n"
proof -
  assume "x < of_int n + 1 / 2"
  moreover have "of_int (rne x) - x \<le> 1 / 2" using rne_bounds [of x] by linarith
  ultimately have "(of_int (rne x) :: real) < of_int n + 1" by linarith
  then have "(of_int (rne x) :: real) < of_int (n + 1)" by simp
  then have "rne x < n + 1" by (simp only: of_int_less_iff)
  then show ?thesis by simp
qed

lemma rne_ge: "of_int n - 1 / 2 < x \<Longrightarrow> n \<le> rne x"
proof -
  assume "of_int n - 1 / 2 < x"
  moreover have "x - of_int (rne x) \<le> 1 / 2" using rne_bounds [of x] by linarith
  ultimately have "(of_int n :: real) - 1 < of_int (rne x)" by linarith
  then have "(of_int (n - 1) :: real) < of_int (rne x)" by simp
  then have "n - 1 < rne x" by (simp only: of_int_less_iff)
  then show ?thesis by simp
qed

lemma expo_bounds: "0 < x \<Longrightarrow> 2 powi (expo x) \<le> x \<and> x < 2 powi (expo x + 1)"
proof (induction x rule: expo.induct)
  case (1 x)
  show ?case
  proof (cases "2 \<le> x")
    case True
    then have e: "expo x = expo (x / 2) + 1" using 1(3) by (subst expo.simps) simp
    have "2 powi (expo (x / 2)) \<le> x / 2 \<and> x / 2 < 2 powi (expo (x / 2) + 1)"
      using 1(1) True 1(3) by simp
    then show ?thesis unfolding e by (simp add: power_int_add)
  next
    case False
    show ?thesis
    proof (cases "x < 1")
      case True
      then have e: "expo x = expo (2 * x) - 1" using 1(3) False by (subst expo.simps) simp
      have "2 powi (expo (2 * x)) \<le> 2 * x \<and> 2 * x < 2 powi (expo (2 * x) + 1)"
        using 1(2) True False 1(3) by simp
      then show ?thesis unfolding e by (simp add: power_int_add power_int_diff)
    next
      case False
      then have e: "expo x = 0" using 1(3) \<open>\<not> 2 \<le> x\<close> by (subst expo.simps) simp
      show ?thesis unfolding e using False \<open>\<not> 2 \<le> x\<close> by simp
    qed
  qed
qed

lemma expo_mono:
  assumes "0 < x" and "x \<le> y"
  shows "expo x \<le> expo y"
proof (rule ccontr)
  assume "\<not> expo x \<le> expo y"
  then have "expo y + 1 \<le> expo x" by simp
  then have "(2::real) powi (expo y + 1) \<le> 2 powi (expo x)"
    by (intro power_int_increasing) simp_all
  moreover have "2 powi (expo x) \<le> x" using expo_bounds [OF assms(1)] by simp
  moreover have "y < 2 powi (expo y + 1)" using expo_bounds [of y] assms by simp
  ultimately show False using assms(2) by linarith
qed

lemma round_to_zero [simp]: "round_to p 0 = 0"
  by (simp add: round_to_def)

lemma round_to_minus: "round_to p (- x) = - round_to p x"
  by (simp add: round_to_def Let_def rne_minus)

lemma round_to_pos_eq:
  "0 < x \<Longrightarrow> round_to p x = of_int (rne (x / 2 powi (expo x - int p + 1))) * 2 powi (expo x - int p + 1)"
  by (simp add: round_to_def Let_def)

lemma round_to_pos_bounds:
  assumes "0 < x" and "0 < p"
  shows "2 powi (expo x) \<le> round_to p x \<and> round_to p x \<le> 2 powi (expo x + 1)"
proof -
  define u :: real where "u = 2 powi (expo x - int p + 1)"
  have upos: "0 < u" by (simp add: u_def)
  have lo: "2 powi (expo x) = of_int (2 ^ (p - 1)) * u"
  proof -
    have "(2::real) powi (expo x) = 2 powi (int (p - 1) + (expo x - int p + 1))"
      using assms(2) by (intro arg_cong [where f = "\<lambda>k. 2 powi k"]) simp
    also have "\<dots> = 2 powi (int (p - 1)) * 2 powi (expo x - int p + 1)"
      by (rule power_int_add) simp
    also have "\<dots> = of_int (2 ^ (p - 1)) * u"
      unfolding u_def by (simp only: power_int_of_nat of_int_power of_int_numeral)
    finally show ?thesis .
  qed
  have hi: "2 powi (expo x + 1) = of_int (2 ^ p) * u"
  proof -
    have "(2::real) powi (expo x + 1) = 2 powi (int p + (expo x - int p + 1))"
      by (intro arg_cong [where f = "\<lambda>k. 2 powi k"]) simp
    also have "\<dots> = 2 powi (int p) * 2 powi (expo x - int p + 1)"
      by (rule power_int_add) simp
    also have "\<dots> = of_int (2 ^ p) * u"
      unfolding u_def by (simp only: power_int_of_nat of_int_power of_int_numeral)
    finally show ?thesis .
  qed
  have b: "2 powi (expo x) \<le> x" "x < 2 powi (expo x + 1)"
    using expo_bounds [OF assms(1)] by simp_all
  have "of_int (2 ^ (p - 1)) \<le> x / u" using b(1) upos unfolding lo by (simp add: field_simps)
  then have "rne (of_int (2 ^ (p - 1))) \<le> rne (x / u)" by (rule rne_mono)
  then have l: "(2::int) ^ (p - 1) \<le> rne (x / u)" by (simp only: rne_of_int)
  have "x / u \<le> of_int (2 ^ p)" using b(2) upos unfolding hi by (simp add: field_simps)
  then have "rne (x / u) \<le> rne (of_int (2 ^ p))" by (rule rne_mono)
  then have h: "rne (x / u) \<le> (2::int) ^ p" by (simp only: rne_of_int)
  have r: "round_to p x = of_int (rne (x / u)) * u"
    using round_to_pos_eq [OF assms(1)] by (simp add: u_def)
  have "of_int (2 ^ (p - 1)) * u \<le> of_int (rne (x / u)) * u"
    using l upos by (simp del: of_int_power)
  moreover have "of_int (rne (x / u)) * u \<le> of_int (2 ^ p) * u"
    using h upos by (simp del: of_int_power)
  ultimately show ?thesis unfolding lo hi r by simp
qed

lemma round_to_pos: "0 < x \<Longrightarrow> 0 < p \<Longrightarrow> 0 < round_to p x"
proof -
  assume a: "0 < x" "0 < p"
  have "(0::real) < 2 powi (expo x)" by simp
  then show ?thesis using round_to_pos_bounds [OF a] by linarith
qed

lemma round_to_mono_pos:
  assumes "0 < x" and "x \<le> y" and "0 < p"
  shows "round_to p x \<le> round_to p y"
proof (cases "expo x = expo y")
  case True
  define u :: real where "u = 2 powi (expo x - int p + 1)"
  have upos: "0 < u" by (simp add: u_def)
  have "x / u \<le> y / u" using assms(2) upos by (simp add: divide_right_mono)
  then have "rne (x / u) \<le> rne (y / u)" by (rule rne_mono)
  then have "of_int (rne (x / u)) * u \<le> of_int (rne (y / u)) * u" using upos by simp
  moreover have "round_to p x = of_int (rne (x / u)) * u"
    using round_to_pos_eq [OF assms(1)] by (simp add: u_def)
  moreover have "round_to p y = of_int (rne (y / u)) * u"
    using round_to_pos_eq [of y p] assms True by (simp add: u_def)
  ultimately show ?thesis by simp
next
  case False
  then have "expo x + 1 \<le> expo y" using expo_mono [OF assms(1,2)] by simp
  then have "(2::real) powi (expo x + 1) \<le> 2 powi (expo y)"
    by (intro power_int_increasing) simp_all
  moreover have "round_to p x \<le> 2 powi (expo x + 1)"
    using round_to_pos_bounds [OF assms(1,3)] by simp
  moreover have "2 powi (expo y) \<le> round_to p y"
    using round_to_pos_bounds [of y p] assms by simp
  ultimately show ?thesis by linarith
qed

lemma round_to_mono:
  assumes "x \<le> y" and "0 < p"
  shows "round_to p x \<le> round_to p y"
proof -
  consider "0 < x" | "x \<le> 0" "0 \<le> y" | "y < 0" by linarith
  then show ?thesis
  proof cases
    case 1
    then show ?thesis using round_to_mono_pos assms by simp
  next
    case 2
    have "round_to p x \<le> 0"
    proof (cases "x = 0")
      case True
      then show ?thesis by simp
    next
      case False
      then have "0 < - x" using 2 by simp
      then have "0 < round_to p (- x)" using assms(2) by (rule round_to_pos)
      then show ?thesis by (simp add: round_to_minus)
    qed
    moreover have "0 \<le> round_to p y"
    proof (cases "y = 0")
      case True
      then show ?thesis by simp
    next
      case False
      then have "0 < y" using 2 by simp
      then have "0 < round_to p y" using assms(2) by (rule round_to_pos)
      then show ?thesis by simp
    qed
    ultimately show ?thesis by linarith
  next
    case 3
    then have "0 < - y" "- y \<le> - x" using assms(1) by simp_all
    then have "round_to p (- y) \<le> round_to p (- x)" using assms(2) by (rule round_to_mono_pos)
    then show ?thesis by (simp add: round_to_minus)
  qed
qed

lemma round_to_error_pos:
  assumes "0 < x"
  shows "\<bar>round_to p x - x\<bar> \<le> x * 2 powi (- int p)"
proof -
  define u :: real where "u = 2 powi (expo x - int p + 1)"
  have upos: "0 < u" by (simp add: u_def)
  have r: "round_to p x = of_int (rne (x / u)) * u"
    using round_to_pos_eq [OF assms] by (simp add: u_def)
  have "round_to p x - x = (of_int (rne (x / u)) - x / u) * u"
    using upos by (simp add: r field_simps)
  then have "\<bar>round_to p x - x\<bar> = \<bar>of_int (rne (x / u)) - x / u\<bar> * u"
    using upos by (simp add: abs_mult)
  also have "\<dots> \<le> (1 / 2) * u"
    using rne_bounds [of "x / u"] upos by (intro mult_right_mono) simp_all
  also have "(1 / 2) * u = 2 powi (expo x) * 2 powi (- int p)"
  proof -
    have "(2::real) powi (expo x - int p + 1) = 2 powi (expo x + (- int p) + 1)" by simp
    also have "\<dots> = 2 powi (expo x + (- int p)) * 2" by (rule power_int_add_1) simp
    also have "\<dots> = 2 powi (expo x) * 2 powi (- int p) * 2"
      by (subst power_int_add) simp_all
    finally show ?thesis by (simp add: u_def)
  qed
  also have "\<dots> \<le> x * 2 powi (- int p)"
    using expo_bounds [OF assms] by (intro mult_right_mono) simp_all
  finally show ?thesis .
qed

lemma round_to_error: "\<bar>round_to p x - x\<bar> \<le> \<bar>x\<bar> * 2 powi (- int p)"
proof -
  consider "0 < x" | "x = 0" | "0 < - x" by linarith
  then show ?thesis
  proof cases
    case 1
    then show ?thesis using round_to_error_pos [of x p] by simp
  next
    case 2
    then show ?thesis by simp
  next
    case 3
    have "\<bar>round_to p x - x\<bar> = \<bar>round_to p (- x) - (- x)\<bar>"
      by (simp add: round_to_minus)
    also have "\<dots> \<le> (- x) * 2 powi (- int p)" using 3 by (rule round_to_error_pos)
    finally show ?thesis using 3 by simp
  qed
qed

lemma round_to_repr_pos:
  assumes "0 < m" and "m < 2 ^ p"
  shows "round_to p (of_int m * 2 powi k) = of_int m * 2 powi k"
proof -
  define x :: real where "x = of_int m * 2 powi k"
  have xpos: "0 < x" using assms(1) by (simp add: x_def)
  define u :: real where "u = 2 powi (expo x - int p + 1)"
  have upos: "0 < u" by (simp add: u_def)
  have "x < of_int (2 ^ p) * 2 powi k"
    unfolding x_def using assms(2) by (intro mult_strict_right_mono) (simp_all del: of_int_power)
  also have "of_int (2 ^ p) * 2 powi k = (2::real) powi (int p + k)"
    by (subst power_int_add) simp_all
  finally have lt: "(2::real) powi (expo x) < 2 powi (int p + k)"
    using expo_bounds [OF xpos] by linarith
  have "expo x < int p + k"
  proof (rule ccontr)
    assume "\<not> expo x < int p + k"
    then have "(2::real) powi (int p + k) \<le> 2 powi (expo x)"
      by (intro power_int_increasing) simp_all
    then show False using lt by linarith
  qed
  then have nn: "0 \<le> k - (expo x - int p + 1)" by simp
  define n where "n = nat (k - (expo x - int p + 1))"
  have "x / u = of_int m * (2 powi k / 2 powi (expo x - int p + 1))"
    by (simp add: x_def u_def)
  also have "(2::real) powi k / 2 powi (expo x - int p + 1) = 2 powi (k - (expo x - int p + 1))"
    by (subst power_int_diff) simp_all
  also have "\<dots> = 2 ^ n" using nn by (simp add: n_def power_int_nonneg_exp)
  finally have q: "x / u = of_int (m * 2 ^ n)" by simp
  have "round_to p x = of_int (rne (x / u)) * u"
    using round_to_pos_eq [OF xpos] by (simp add: u_def)
  also have "\<dots> = (x / u) * u" unfolding q by (simp only: rne_of_int)
  also have "\<dots> = x" using upos by simp
  finally show ?thesis by (simp add: x_def)
qed

lemma round_to_of_int:
  assumes "\<bar>n\<bar> < 2 ^ p"
  shows "round_to p (of_int n) = of_int n"
proof -
  consider "0 < n" | "n = 0" | "0 < - n" by linarith
  then show ?thesis
  proof cases
    case 1
    then show ?thesis using round_to_repr_pos [of n p 0] assms by simp
  next
    case 2
    then show ?thesis by simp
  next
    case 3
    then have "round_to p (of_int (- n) * 2 powi 0) = of_int (- n) * 2 powi 0"
      using assms by (intro round_to_repr_pos) simp_all
    then show ?thesis by (simp add: round_to_minus)
  qed
qed

lemma round_to_idem:
  assumes "0 < p"
  shows "round_to p (round_to p x) = round_to p x"
proof -
  have pos: "round_to p (round_to p y) = round_to p y" if y: "0 < y" for y
  proof -
    define k where "k = expo y - int p + 1"
    define n where "n = rne (y / 2 powi k)"
    have r: "round_to p y = of_int n * 2 powi k"
      using round_to_pos_eq [OF y] by (simp add: n_def k_def)
    have rpos: "0 < round_to p y" using y assms by (rule round_to_pos)
    have kpos: "(0::real) < 2 powi k" by simp
    have npos: "0 < n"
    proof (rule ccontr)
      assume "\<not> 0 < n"
      then have "(of_int n :: real) \<le> 0" by simp
      then have "of_int n * 2 powi k \<le> (0::real)" using kpos by (simp add: mult_le_0_iff)
      then show False using rpos unfolding r by linarith
    qed
    have "round_to p y \<le> 2 powi (expo y + 1)"
      using round_to_pos_bounds [OF y assms] by simp
    also have "(2::real) powi (expo y + 1) = 2 powi (int p + k)"
      by (simp add: k_def)
    also have "\<dots> = of_int (2 ^ p) * 2 powi k"
      by (subst power_int_add) simp_all
    finally have "of_int n * 2 powi k \<le> of_int (2 ^ p) * (2::real) powi k" unfolding r .
    then have "(of_int n :: real) \<le> of_int (2 ^ p)"
      by (simp del: of_int_power)
    then have nle: "n \<le> 2 ^ p" by (simp only: of_int_le_iff)
    show ?thesis
    proof (cases "n = 2 ^ p")
      case True
      have "round_to p y = of_int 1 * 2 powi (int p + k)"
        unfolding r True by (subst power_int_add) simp_all
      moreover have "round_to p (of_int 1 * 2 powi (int p + k)) = of_int 1 * 2 powi (int p + k)"
        using assms by (intro round_to_repr_pos) simp_all
      ultimately show ?thesis by simp
    next
      case False
      then have "n < 2 ^ p" using nle by simp
      then have "round_to p (of_int n * 2 powi k) = of_int n * 2 powi k"
        using npos by (intro round_to_repr_pos)
      then show ?thesis by (simp add: r)
    qed
  qed
  consider "0 < x" | "x = 0" | "0 < - x" by linarith
  then show ?thesis
  proof cases
    case 1
    then show ?thesis by (rule pos)
  next
    case 2
    then show ?thesis by simp
  next
    case 3
    then have "round_to p (round_to p (- x)) = round_to p (- x)" by (rule pos)
    then show ?thesis by (simp add: round_to_minus)
  qed
qed

subsection \<open>Python floats and array dtypes\<close>

lemma prec_pos: "0 < prec d"
  by (cases d) simp_all

lemma rnd_mono: "x \<le> y \<Longrightarrow> rnd d x \<le> rnd d y"
  by (simp add: rnd_def round_to_mono prec_pos)

lemma py_mono: "x \<le> y \<Longrightarrow> py x \<le> py y"
  by (simp add: py_def round_to_mono)

lemma py_nonneg: "0 \<le> x \<Longrightarrow> 0 \<le> py x"
  using py_mono [of 0 x] by (simp add: py_def)

lemma py_pos: "0 < x \<Longrightarrow> 0 < py x"
  by (simp add: py_def round_to_pos)

lemma py_zero [simp]: "py 0 = 0"
  by (simp add: py_def)

lemma py_of_int: "\<bar>n\<bar> < 2 ^ 53 \<Longrightarrow> py (of_int n) = of_int n"
  unfolding py_def by (rule round_to_of_int)

lemma py_idem [simp]: "py (py x) = py x"
  by (simp add: py_def round_to_idem)

lemma py_of_nat: "n < 2 ^ 53 \<Longrightarrow> py (real n) = real n"
proof -
  assume "n < 2 ^ 53"
  then have "int n < int (2 ^ 53)" by (simp only: of_nat_less_iff)
  then have "\<bar>int n\<bar> < 2 ^ 53" by simp
  then have "py (of_int (int n)) = of_int (int n)" by (rule py_of_int)
  then show ?thesis by simp
qed

lemma py_error: "0 \<le> x \<Longrightarrow> \<bar>py x - x\<bar> \<le> x * (1 / 2 ^ 53)"
proof -
  assume x: "0 \<le> x"
  have "\<bar>py x - x\<bar> \<le> \<bar>x\<bar> * 2 powi (- int 53)" unfolding py_def by (rule round_to_error)
  moreover have "(2::real) powi (- int 53) = 1 / 2 ^ 53" by (simp add: power_int_minus_divide)
  moreover have "\<bar>x\<bar> = x" using x by simp
  ultimately show ?thesis by (simp only:)
qed

lemma py_upper: "0 \<le> x \<Longrightarrow> py x \<le> x * (1 + 1 / 2 ^ 53)"
proof -
  assume x: "0 \<le> x"
  have "x * (1 + 1 / 2 ^ 53) = x + x * (1 / 2 ^ 53)" by (simp only: distrib_left mult_1_right)
  then show ?thesis using py_error [OF x] by linarith
qed

lemma py_lower: "0 \<le> x \<Longrightarrow> x * (1 - 1 / 2 ^ 53) \<le> py x"
proof -
  assume x: "0 \<le> x"
  have "x * (1 - 1 / 2 ^ 53) = x - x * (1 / 2 ^ 53)" by (simp only: right_diff_distrib mult_1_right)
  then show ?thesis using py_error [OF x] by linarith
qed

text \<open>
  The equations that evaluate the arithmetic on numerals. \<open>expo.simps\<close> unfolds
  without end on an argument that is not a numeral.
\<close>

lemmas float_eval = py_def rnd_def round_to_def expo.simps rne_def Let_def power_int_minus

section \<open>Arrays without NaN\<close>

lemma fle_refl: "x \<noteq> NaN \<Longrightarrow> fle x x"
  by (cases x) simp_all

lemma fle_trans: "fle x y \<Longrightarrow> fle y z \<Longrightarrow> fle x z"
  by (cases x; cases y; cases z) simp_all

lemma not_fle: "x \<noteq> NaN \<Longrightarrow> y \<noteq> NaN \<Longrightarrow> \<not> fle x y \<Longrightarrow> fle y x \<and> x \<noteq> y"
  by (cases x; cases y) auto

lemma fle_antisym: "fle x y \<Longrightarrow> fle y x \<Longrightarrow> x = y"
  by (cases x; cases y) simp_all

lemma finite_Fin_set: "finite {x. Fin x \<in> set xs}"
proof -
  have "{x. Fin x \<in> set xs} \<subseteq> (\<lambda>v. case v of Fin r \<Rightarrow> r | NaN \<Rightarrow> 0) ` set xs"
    by (force simp: image_iff)
  then show ?thesis by (rule finite_subset) simp
qed

lemma finite_cells: "finite (cells g)"
  unfolding cells_def by (rule finite_Fin_set)

lemma no_nan_concat: "no_nan g \<Longrightarrow> \<forall>x \<in> set (concat g). x \<noteq> NaN"
  by (auto simp: no_nan_def)

lemma concat_nonempty:
  assumes "i < length g" and "j < length (g ! i)"
  shows "concat g \<noteq> []"
proof -
  have "g ! i \<in> set g" using assms(1) by simp
  moreover have "g ! i \<noteq> []" using assms(2) by auto
  ultimately show ?thesis by auto
qed

lemma cell_Fin:
  assumes "no_nan g" and "i < length g" and "j < length (g ! i)"
  shows "\<exists>e. g ! i ! j = Fin e \<and> e \<in> cells g"
proof -
  have row: "g ! i \<in> set g" using assms(2) by simp
  then have mem: "g ! i ! j \<in> set (g ! i)" using assms(3) by simp
  then have "g ! i ! j \<noteq> NaN" using assms(1) row by (auto simp: no_nan_def)
  then obtain e where e: "g ! i ! j = Fin e" by (cases "g ! i ! j") auto
  have "g ! i ! j \<in> set (concat g)" using row mem by auto
  then show ?thesis using e by (auto simp: cells_def)
qed

lemma foldl_np_minimum_Fin:
  "\<forall>x \<in> set xs. x \<noteq> NaN \<Longrightarrow>
     foldl np_minimum (Fin a) xs = Fin (Min (insert a {x. Fin x \<in> set xs}))"
proof (induction xs arbitrary: a)
  case Nil
  then show ?case by simp
next
  case (Cons y ys)
  then obtain b where y: "y = Fin b" by (cases y) auto
  have fin: "finite {x. Fin x \<in> set ys}" by (rule finite_Fin_set)
  have set_eq: "{x. Fin x \<in> set (y # ys)} = insert b {x. Fin x \<in> set ys}"
    using y by auto
  have "foldl np_minimum (Fin a) (y # ys) = foldl np_minimum (Fin (min a b)) ys"
    using y by simp
  also have "\<dots> = Fin (Min (insert (min a b) {x. Fin x \<in> set ys}))"
    using Cons by simp
  also have "Min (insert (min a b) {x. Fin x \<in> set ys}) = Min (insert a (insert b {x. Fin x \<in> set ys}))"
    using fin by (cases "{x. Fin x \<in> set ys} = {}") (simp_all add: min.assoc)
  finally show ?case using set_eq by simp
qed

lemma np_min_no_nan:
  assumes "no_nan g" and "concat g \<noteq> []"
  shows "np_min g = Inr (Fin (Min (cells g)))"
proof -
  obtain x xs where c: "concat g = x # xs" using assms(2) by (cases "concat g") auto
  have nn: "\<forall>y \<in> set (x # xs). y \<noteq> NaN" using no_nan_concat [OF assms(1)] c by simp
  then obtain a where x: "x = Fin a" by (cases x) auto
  have "cells g = insert a {v. Fin v \<in> set xs}" using c x by (auto simp: cells_def)
  moreover have "foldl np_minimum (Fin a) xs = Fin (Min (insert a {v. Fin v \<in> set xs}))"
    using nn by (intro foldl_np_minimum_Fin) simp
  ultimately show ?thesis using c x by (simp add: np_min_def)
qed

lemma foldl_np_fmin_Fin:
  "foldl np_fmin (Fin a) xs = Fin (Min (insert a {x. Fin x \<in> set xs}))"
proof (induction xs arbitrary: a)
  case Nil
  then show ?case by simp
next
  case (Cons y ys)
  show ?case
  proof (cases y)
    case NaN
    then have "{x. Fin x \<in> set (y # ys)} = {x. Fin x \<in> set ys}" by auto
    then show ?thesis using Cons NaN by simp
  next
    case (Fin b)
    have set_eq: "{x. Fin x \<in> set (y # ys)} = insert b {x. Fin x \<in> set ys}"
      using Fin by auto
    have "foldl np_fmin (Fin a) (y # ys) = Fin (Min (insert (min a b) {x. Fin x \<in> set ys}))"
      using Fin Cons by simp
    also have "Min (insert (min a b) {x. Fin x \<in> set ys})
                 = Min (insert a (insert b {x. Fin x \<in> set ys}))"
      using finite_Fin_set [of ys]
      by (cases "{x. Fin x \<in> set ys} = {}") (simp_all add: min.assoc)
    finally show ?thesis using set_eq by simp
  qed
qed

lemma foldl_np_fmin_NaN:
  "{x. Fin x \<in> set xs} \<noteq> {} \<Longrightarrow> foldl np_fmin NaN xs = Fin (Min {x. Fin x \<in> set xs})"
proof (induction xs)
  case Nil
  then show ?case by simp
next
  case (Cons y ys)
  show ?case
  proof (cases y)
    case NaN
    then have "{x. Fin x \<in> set (y # ys)} = {x. Fin x \<in> set ys}" by auto
    then show ?thesis using Cons NaN by simp
  next
    case (Fin b)
    have "{x. Fin x \<in> set (y # ys)} = insert b {x. Fin x \<in> set ys}"
      using Fin by auto
    then show ?thesis using Fin by (simp add: foldl_np_fmin_Fin)
  qed
qed

lemma np_nanmin_cells:
  assumes "cells g \<noteq> {}"
  shows "np_nanmin g = Inr (Fin (Min (cells g)))"
proof (cases "concat g")
  case Nil
  have "cells g = {}" unfolding cells_def Nil by simp
  then show ?thesis using assms by simp
next
  case (Cons x xs)
  show ?thesis
  proof (cases x)
    case NaN
    then have "cells g = {v. Fin v \<in> set xs}" using Cons by (auto simp: cells_def)
    then show ?thesis using assms Cons NaN by (simp add: np_nanmin_def foldl_np_fmin_NaN)
  next
    case (Fin a)
    then have "cells g = insert a {v. Fin v \<in> set xs}" using Cons by (auto simp: cells_def)
    then show ?thesis using Cons Fin by (simp add: np_nanmin_def foldl_np_fmin_Fin)
  qed
qed

lemma length_concat_rect: "rect g c \<Longrightarrow> length (concat g) = length g * c"
  by (induction g) (simp_all add: rect_def)

lemma concat_rect_nth:
  "rect g c \<Longrightarrow> i < length g \<Longrightarrow> j < c \<Longrightarrow> concat g ! (i * c + j) = g ! i ! j"
proof (induction g arbitrary: i)
  case Nil
  then show ?case by simp
next
  case (Cons row g)
  have len: "length row = c" and rest: "rect g c" using Cons.prems(1) by (simp_all add: rect_def)
  show ?case
  proof (cases i)
    case 0
    then show ?thesis using Cons.prems(3) len by (simp add: nth_append)
  next
    case (Suc i')
    then have "i' < length g" using Cons.prems(2) by simp
    then have "concat g ! (i' * c + j) = g ! i' ! j" using rest Cons.prems(3) by (intro Cons.IH)
    moreover have "(row @ concat g) ! (c + (i' * c + j)) = concat g ! (i' * c + j)"
      using len by (simp add: nth_append)
    ultimately show ?thesis using Suc by (simp add: add.assoc)
  qed
qed

lemma shape_rect: "rect g c \<Longrightarrow> g \<noteq> [] \<Longrightarrow> shape g = (length g, c)"
  by (cases g) (simp_all add: shape_def rect_def)

subsection \<open>The argmax scan\<close>

lemma argmax_loop_first_max:
  assumes "\<forall>x \<in> set (pre @ xs). x \<noteq> NaN"
    and "length pre = i" and "max_ind < i" and "pre ! max_ind = mp"
    and "\<forall>j < i. fle (pre ! j) mp" and "\<forall>j < max_ind. pre ! j \<noteq> mp"
  shows "first_max (pre @ xs) (argmax_loop mp max_ind i xs)"
  using assms
proof (induction xs arbitrary: pre mp max_ind i)
  case Nil
  then show ?case by (simp add: first_max_def)
next
  case (Cons x xs)
  have mp: "mp \<noteq> NaN" using Cons.prems(1,2,3,4) by (auto simp: nth_append)
  have x: "x \<noteq> NaN" using Cons.prems(1) by simp
  have app: "pre @ x # xs = (pre @ [x]) @ xs" by simp
  show ?case
  proof (cases "fle x mp")
    case True
    have "first_max ((pre @ [x]) @ xs) (argmax_loop mp max_ind (i + 1) xs)"
    proof (rule Cons.IH)
      show "\<forall>y \<in> set ((pre @ [x]) @ xs). y \<noteq> NaN" using Cons.prems(1) by simp
      show "length (pre @ [x]) = i + 1" using Cons.prems(2) by simp
      show "max_ind < i + 1" using Cons.prems(3) by simp
      show "(pre @ [x]) ! max_ind = mp" using Cons.prems(2,3,4) by (simp add: nth_append)
      show "\<forall>j < i + 1. fle ((pre @ [x]) ! j) mp"
        using Cons.prems(2,5) True by (auto simp: nth_append less_Suc_eq)
      show "\<forall>j < max_ind. (pre @ [x]) ! j \<noteq> mp"
        using Cons.prems(2,3,6) by (auto simp: nth_append)
    qed
    then show ?thesis using True mp by simp
  next
    case False
    then have lt: "fle mp x" "x \<noteq> mp" using not_fle [OF x mp] by auto
    have "first_max ((pre @ [x]) @ xs) (argmax_loop x i (i + 1) xs)"
    proof (rule Cons.IH)
      show "\<forall>y \<in> set ((pre @ [x]) @ xs). y \<noteq> NaN" using Cons.prems(1) by simp
      show "length (pre @ [x]) = i + 1" using Cons.prems(2) by simp
      show "i < i + 1" by simp
      show "(pre @ [x]) ! i = x" using Cons.prems(2) by (simp add: nth_append)
      show "\<forall>j < i + 1. fle ((pre @ [x]) ! j) x"
        using Cons.prems(2,5) lt(1) x by (auto simp: nth_append less_Suc_eq fle_refl intro: fle_trans)
      show "\<forall>j < i. (pre @ [x]) ! j \<noteq> x"
      proof (intro allI impI)
        fix j assume j: "j < i"
        then have "fle (pre ! j) mp" using Cons.prems(5) by simp
        moreover have "\<not> fle x mp" using False .
        ultimately have "pre ! j \<noteq> x" by auto
        then show "(pre @ [x]) ! j \<noteq> x" using j Cons.prems(2) by (simp add: nth_append)
      qed
    qed
    then show ?thesis using False mp by simp
  qed
qed

lemma np_argmax_first_max:
  assumes "no_nan g" and "concat g \<noteq> []"
  shows "\<exists>k. np_argmax g = Inr k \<and> first_max (concat g) k"
proof -
  obtain x xs where c: "concat g = x # xs" using assms(2) by (cases "concat g") auto
  have nn: "\<forall>y \<in> set ([x] @ xs). y \<noteq> NaN" using no_nan_concat [OF assms(1)] c by simp
  have "fle x x" using nn by (simp add: fle_refl)
  then have "first_max ([x] @ xs) (argmax_loop x 0 1 xs)"
    using nn by (intro argmax_loop_first_max) simp_all
  then show ?thesis using c by (simp add: np_argmax_def)
qed

lemma peak_first_max:
  assumes "no_nan w" and "rect w c" and "0 < c" and "w \<noteq> []"
  shows "\<exists>i j. peak w = Inr ((i, j), w ! i ! j) \<and> i < length w \<and> j < c
           \<and> first_max (concat w) (i * c + j)"
proof -
  have len: "length (concat w) = length w * c" using assms(2) by (rule length_concat_rect)
  then have "concat w \<noteq> []" using assms(3,4) by (metis length_0_conv mult_is_0 less_numeral_extra(3))
  then obtain k where k: "np_argmax w = Inr k" "first_max (concat w) k"
    using np_argmax_first_max [OF assms(1)] by blast
  have klt: "k < length w * c" using k(2) len by (simp add: first_max_def)
  then have i: "k div c < length w" by (simp add: less_mult_imp_div_less)
  have j: "k mod c < c" using assms(3) by simp
  have "w ! (k div c) \<in> set w" using i by simp
  then have row: "length (w ! (k div c)) = c" using assms(2) by (simp add: rect_def)
  have "peak w = Inr ((k div c, k mod c), w ! (k div c) ! (k mod c))"
    using k(1) klt i j row
    by (simp add: peak_def shape_rect [OF assms(2,4)] np_unravel_index_def index2_def)
  moreover have "k div c * c + k mod c = k" by simp
  ultimately show ?thesis using i j k(2) by (metis (no_types))
qed

section \<open>The water level of a cell\<close>

lemma water_level_cell:
  assumes "no_nan g" and "i < length g" and "j < length (g ! i)"
  shows "\<exists>w e. water_level d v g = Inr w \<and> length w = length g
           \<and> length (w ! i) = length (g ! i) \<and> g ! i ! j = Fin e
           \<and> w ! i ! j = Fin (max 0 (rnd d (rnd d (rnd d v - e) + Min (cells g))))"
proof -
  obtain e where e: "g ! i ! j = Fin e" using cell_Fin [OF assms] by blast
  have m: "np_min g = Inr (Fin (Min (cells g)))"
    using np_min_no_nan [OF assms(1) concat_nonempty [OF assms(2,3)]] .
  show ?thesis using assms(2,3) e by (simp add: water_level_def m)
qed

lemma water_level_grid:
  assumes "no_nan g" and "rect g c" and "0 < c" and "g \<noteq> []"
  shows "\<exists>w. water_level d v g = Inr w \<and> no_nan w \<and> rect w c \<and> length w = length g"
proof -
  have "length (concat g) = length g * c" using assms(2) by (rule length_concat_rect)
  then have ne: "concat g \<noteq> []" using assms(3,4) by (metis length_0_conv mult_is_0 less_numeral_extra(3))
  let ?m = "Fin (Min (cells g))"
  let ?w = "map (map (\<lambda>e. np_maximum (Fin 0) (fadd d (fsub d (Fin (rnd d v)) e) ?m))) g"
  have w: "water_level d v g = Inr ?w"
    by (simp add: water_level_def np_min_no_nan [OF assms(1) ne])
  have "\<And>e. e \<noteq> NaN \<Longrightarrow> np_maximum (Fin 0) (fadd d (fsub d (Fin (rnd d v)) e) ?m) \<noteq> NaN"
    by (case_tac e) simp_all
  then have "no_nan ?w" using assms(1) by (auto simp: no_nan_def)
  moreover have "rect ?w c" using assms(2) by (auto simp: rect_def)
  ultimately show ?thesis using w by simp
qed

lemma frames_nth:
  assumes "k < steps"
  shows "frames d inflow steps elevation ! k
           = water_level d (volume_t inflow (time_fraction (k + 1) steps)) elevation"
proof -
  have n: "[1..<steps + 1] ! k = 1 + k" using assms by (intro nth_upt) simp
  have len: "k < length [1..<steps + 1]" using assms by simp
  have "frames d inflow steps elevation ! k
          = (\<lambda>t. water_level d (volume_t inflow (time_fraction t steps)) elevation)
              ([1..<steps + 1] ! k)"
    unfolding frames_def using len by (rule nth_map)
  then show ?thesis unfolding n by (simp add: add.commute)
qed

lemma inflow_volume_nonneg:
  assumes "0 \<le> r" and "0 \<le> dm"
  shows "0 \<le> inflow_volume r dm"
proof -
  have "0 \<le> py (of_int r / 3600)" using assms(1) by (intro py_nonneg) simp
  then have "0 \<le> py (py (of_int r / 3600) / 1000)" by (intro py_nonneg) simp
  moreover have "0 \<le> py (of_int (dm * 60))" using assms(2) by (intro py_nonneg) simp
  ultimately have "0 \<le> py (py (py (of_int r / 3600) / 1000) * py (of_int (dm * 60)))"
    by (intro py_nonneg) (rule mult_nonneg_nonneg)
  then show ?thesis
    by (simp add: inflow_volume_def rainfall_intensity_def duration_def)
qed

lemma time_fraction_mono: "k1 \<le> k2 \<Longrightarrow> time_fraction k1 steps \<le> time_fraction k2 steps"
  unfolding time_fraction_def by (intro py_mono divide_right_mono) simp_all

lemma level_mono_volume:
  "v1 \<le> v2 \<Longrightarrow>
     max 0 (rnd d (rnd d (rnd d v1 - e) + m)) \<le> max 0 (rnd d (rnd d (rnd d v2 - e) + m))"
proof -
  assume "v1 \<le> v2"
  then have "rnd d v1 - e \<le> rnd d v2 - e" using rnd_mono [of v1 v2 d] by simp
  then have "rnd d (rnd d v1 - e) + m \<le> rnd d (rnd d v2 - e) + m"
    using rnd_mono [of "rnd d v1 - e" "rnd d v2 - e" d] by simp
  then have "rnd d (rnd d (rnd d v1 - e) + m) \<le> rnd d (rnd d (rnd d v2 - e) + m)"
    by (rule rnd_mono)
  then show ?thesis by (rule max.mono [OF order_refl])
qed

lemma level_antimono_elevation:
  "e1 \<le> e2 \<Longrightarrow>
     max 0 (rnd d (rnd d (v - e2) + m)) \<le> max 0 (rnd d (rnd d (v - e1) + m))"
proof -
  assume "e1 \<le> e2"
  then have "v - e2 \<le> v - e1" by simp
  then have "rnd d (v - e2) + m \<le> rnd d (v - e1) + m"
    using rnd_mono [of "v - e2" "v - e1" d] by simp
  then have "rnd d (rnd d (v - e2) + m) \<le> rnd d (rnd d (v - e1) + m)"
    by (rule rnd_mono)
  then show ?thesis by (rule max.mono [OF order_refl])
qed

lemma water_level_monotone_in_volume:
  assumes "no_nan elevation" and "i < length elevation" and "j < length (elevation ! i)"
    and "v1 \<le> v2"
  shows "\<exists>w1 w2. water_level d v1 elevation = Inr w1 \<and> water_level d v2 elevation = Inr w2
           \<and> fle (w1 ! i ! j) (w2 ! i ! j)"
proof -
  let ?m = "Min (cells elevation)"
  obtain w1 e where w1: "water_level d v1 elevation = Inr w1"
    "elevation ! i ! j = Fin e"
    "w1 ! i ! j = Fin (max 0 (rnd d (rnd d (rnd d v1 - e) + ?m)))"
    using water_level_cell [OF assms(1,2,3)] by blast
  obtain w2 e' where w2: "water_level d v2 elevation = Inr w2"
    "elevation ! i ! j = Fin e'"
    "w2 ! i ! j = Fin (max 0 (rnd d (rnd d (rnd d v2 - e') + ?m)))"
    using water_level_cell [OF assms(1,2,3)] by blast
  have "max 0 (rnd d (rnd d (rnd d v1 - e) + ?m)) \<le> max 0 (rnd d (rnd d (rnd d v2 - e) + ?m))"
    using assms(4) by (rule level_mono_volume)
  moreover have "e' = e" using w1(2) w2(2) by simp
  ultimately show ?thesis using w1 w2 by simp
qed

lemma estimate_first_max:
  assumes "no_nan elevation" and "rect elevation c" and "0 < c" and "elevation \<noteq> []"
  shows "\<exists>w i j. water_level d (inflow_volume r dm) elevation = Inr w
           \<and> estimate d r dm elevation = Inr (w, (i, j), w ! i ! j)
           \<and> rect w c \<and> length w = length elevation \<and> i < length w \<and> j < c
           \<and> first_max (concat w) (i * c + j)"
proof -
  obtain w where w: "water_level d (inflow_volume r dm) elevation = Inr w"
    "no_nan w" "rect w c" "length w = length elevation"
    using water_level_grid [OF assms] by blast
  then have "w \<noteq> []" using assms(4) by auto
  then obtain i j where "peak w = Inr ((i, j), w ! i ! j)" "i < length w" "j < c"
    "first_max (concat w) (i * c + j)"
    using peak_first_max [OF w(2,3) assms(3)] by blast
  then show ?thesis using w by (simp add: estimate_def)
qed

section \<open>The water level formula\<close>

text \<open>
  C1. For every elevation grid without NaN, rainfall intensity \<open>r\<close>, duration \<open>dm\<close>
  and time fraction \<open>t\<close>, the water level at every cell is
  \<open>max(0, inflowDepth - E[cell] + min(E))\<close> evaluated in floating point, left to right,
  where \<open>min(E)\<close> is the minimum over all cells and \<open>inflowDepth\<close> is
  \<open>(r / 3600 / 1000) * (dm * 60) * t\<close>. The static grid, computed without a time
  fraction, is the case \<open>t = 1\<close>.
\<close>

theorem water_level_formula:
  assumes "no_nan elevation" and "i < length elevation" and "j < length (elevation ! i)"
  shows "volume_t (inflow_volume r dm) 1 = inflow_volume r dm
       \<and> (\<exists>w wt e. water_level d (inflow_volume r dm) elevation = Inr w
           \<and> water_level d (volume_t (inflow_volume r dm) t) elevation = Inr wt
           \<and> elevation ! i ! j = Fin e
           \<and> w ! i ! j = Fin (max 0 (rnd d (rnd d
                 (rnd d (py (py (py (of_int r / 3600) / 1000) * py (of_int (dm * 60)))) - e)
                   + Min (cells elevation))))
           \<and> wt ! i ! j = Fin (max 0 (rnd d (rnd d
                 (rnd d (py (py (py (py (of_int r / 3600) / 1000) * py (of_int (dm * 60))) * t)) - e)
                   + Min (cells elevation)))))"
proof -
  have one: "volume_t (inflow_volume r dm) 1 = inflow_volume r dm"
    by (simp add: volume_t_def inflow_volume_def)
  obtain w e where w: "water_level d (inflow_volume r dm) elevation = Inr w"
    "elevation ! i ! j = Fin e"
    "w ! i ! j = Fin (max 0 (rnd d (rnd d (rnd d (inflow_volume r dm) - e) + Min (cells elevation))))"
    using water_level_cell [OF assms] by blast
  obtain wt e' where wt: "water_level d (volume_t (inflow_volume r dm) t) elevation = Inr wt"
    "elevation ! i ! j = Fin e'"
    "wt ! i ! j = Fin (max 0 (rnd d (rnd d (rnd d (volume_t (inflow_volume r dm) t) - e')
                         + Min (cells elevation))))"
    using water_level_cell [OF assms] by blast
  have "e' = e" using w(2) wt(2) by simp
  then have "\<exists>w wt e. water_level d (inflow_volume r dm) elevation = Inr w
           \<and> water_level d (volume_t (inflow_volume r dm) t) elevation = Inr wt
           \<and> elevation ! i ! j = Fin e
           \<and> w ! i ! j = Fin (max 0 (rnd d (rnd d
                 (rnd d (py (py (py (of_int r / 3600) / 1000) * py (of_int (dm * 60)))) - e)
                   + Min (cells elevation))))
           \<and> wt ! i ! j = Fin (max 0 (rnd d (rnd d
                 (rnd d (py (py (py (py (of_int r / 3600) / 1000) * py (of_int (dm * 60))) * t)) - e)
                   + Min (cells elevation))))"
    using w wt
    by (simp add: inflow_volume_def rainfall_intensity_def duration_def volume_t_def)
  then show ?thesis using one by (rule conjI [rotated])
qed

theorem water_level_formula_witness:
  "no_nan [[Fin 0, Fin 1], [Fin 2, Fin 3]]
   \<and> (\<exists>w wt. water_level Float64 (inflow_volume 3600 60) [[Fin 0, Fin 1], [Fin 2, Fin 3]] = Inr w
         \<and> water_level Float64 (volume_t (inflow_volume 3600 60) (1 / 2))
              [[Fin 0, Fin 1], [Fin 2, Fin 3]] = Inr wt
         \<and> w ! 0 ! 1 = Fin (5854679515581645 / 2251799813685248)
         \<and> wt ! 0 ! 1 = Fin (3602879701896397 / 4503599627370496))"
proof -
  let ?E = "[[Fin 0, Fin 1], [Fin 2, Fin 3]]"
  have h: "no_nan ?E" by (simp add: no_nan_def)
  have c: "cells ?E = {0, 1, 2, 3}" by (auto simp: cells_def)
  have v: "py (py (py (of_int 3600 / 3600) / 1000) * py (of_int (60 * 60)))
             = 8106479329266893 / 2251799813685248"
    by (simp add: float_eval)
  have vt: "py (8106479329266893 / 2251799813685248 * (1 / 2))
             = 8106479329266893 / 4503599627370496"
    by (simp add: float_eval)
  have r1: "max 0 (rnd Float64 (rnd Float64 (rnd Float64 (8106479329266893 / 2251799813685248) - 1)))
             = 5854679515581645 / 2251799813685248"
    by (simp add: float_eval)
  have r2: "max 0 (rnd Float64 (rnd Float64 (rnd Float64 (8106479329266893 / 4503599627370496) - 1)))
             = 3602879701896397 / 4503599627370496"
    by (simp add: float_eval)
  obtain w wt e where
    "water_level Float64 (inflow_volume 3600 60) ?E = Inr w"
    "water_level Float64 (volume_t (inflow_volume 3600 60) (1 / 2)) ?E = Inr wt"
    "?E ! 0 ! 1 = Fin e"
    "w ! 0 ! 1 = Fin (max 0 (rnd Float64 (rnd Float64
         (rnd Float64 (py (py (py (of_int 3600 / 3600) / 1000) * py (of_int (60 * 60)))) - e)
           + Min (cells ?E))))"
    "wt ! 0 ! 1 = Fin (max 0 (rnd Float64 (rnd Float64
         (rnd Float64 (py (py (py (py (of_int 3600 / 3600) / 1000) * py (of_int (60 * 60))) * (1 / 2))) - e)
           + Min (cells ?E))))"
    using water_level_formula [OF h, where i = 0 and j = 1 and r = 3600 and dm = 60 and d = Float64 and t = "1 / 2"] by auto
  moreover from this have "e = 1" by simp
  ultimately show ?thesis
    using h unfolding v vt c by (simp add: r1 r2)
qed

section \<open>The concrete scenario\<close>

text \<open>
  C2, as amended. For the elevation grid \<open>[[0,1],[2,3]]\<close>, rain intensity 3600 mm/hr
  and duration 60 minutes, the inflow depth is 3.6 m (the float nearest to 3.6), the
  minimum elevation is 0, no cell is clamped: the water level grid is
  \<open>[[3.6, 2.6], [1.6, 0.6]]\<close> (3.6 minus the elevation), and the peak is at row 0,
  column 0, with value 3.6. With bounds left = 0, right = 1, top = 1, bottom = 0 the
  peak lies at X = 0, Y = 1.
\<close>

theorem scenario_values:
  "inflow_volume 3600 60 = py (18 / 5)
   \<and> py (18 / 5) = 8106479329266893 / 2251799813685248
   \<and> np_min [[Fin 0, Fin 1], [Fin 2, Fin 3]] = Inr (Fin 0)
   \<and> estimate Float64 3600 60 [[Fin 0, Fin 1], [Fin 2, Fin 3]]
       = Inr ([[Fin (py (18 / 5)), Fin (py (18 / 5) - 1)],
               [Fin (py (18 / 5) - 2), Fin (py (18 / 5) - 3)]],
              (0, 0), Fin (py (18 / 5)))
   \<and> coordinates \<lparr>b_left = 0, b_right = 1, b_top = 1, b_bottom = 0\<rparr> (2, 2)
       = ([[0, 1], [0, 1]], [[1, 1], [0, 0]])"
proof -
  have one: "py 1 = 1" "py (- 1) = - 1" using py_of_int [of 1] py_of_int [of "- 1"] by simp_all
  have u: "[0..<2] = [0, 1]" by (simp add: upt_rec)
  have x: "np_linspace 0 1 2 = [0, 1]" by (simp add: np_linspace_def Let_def one u)
  have y: "np_linspace 1 0 2 = [1, 0]" by (simp add: np_linspace_def Let_def one u)
  have r: "replicate 2 t = [t, t]" for t :: "real" by (simp add: numeral_2_eq_2)
  have c: "coordinates \<lparr>b_left = 0, b_right = 1, b_top = 1, b_bottom = 0\<rparr> (2, 2)
             = ([[0, 1], [0, 1]], [[1, 1], [0, 0]])"
    by (simp add: coordinates_def np_meshgrid_def x y r)
  have v: "py (18 / 5) = 8106479329266893 / 2251799813685248"
    by (simp add: float_eval)
  have iv: "inflow_volume 3600 60 = 8106479329266893 / 2251799813685248"
    by (simp add: inflow_volume_def rainfall_intensity_def duration_def float_eval)
  have m: "np_min [[Fin 0, Fin 1], [Fin 2, Fin 3]] = Inr (Fin 0)"
    by (simp add: np_min_def)
  have w: "water_level Float64 (8106479329266893 / 2251799813685248) [[Fin 0, Fin 1], [Fin 2, Fin 3]]
             = Inr [[Fin (8106479329266893 / 2251799813685248), Fin (5854679515581645 / 2251799813685248)],
                    [Fin (3602879701896397 / 2251799813685248), Fin (1351079888211149 / 2251799813685248)]]"
    by (simp add: water_level_def m float_eval)
  have p: "peak [[Fin (8106479329266893 / 2251799813685248), Fin (5854679515581645 / 2251799813685248)],
                 [Fin (3602879701896397 / 2251799813685248), Fin (1351079888211149 / 2251799813685248)]]
             = Inr ((0, 0), Fin (8106479329266893 / 2251799813685248))"
    by (simp add: peak_def np_argmax_def np_unravel_index_def shape_def index2_def)
  show ?thesis
    unfolding v c by (simp add: estimate_def iv m w p)
qed

text \<open>
  C2 as stated fails: the inflow depth of that input is not 1 m and the result is not
  the grid \<open>[[1,0],[0,0]]\<close> with peak value 1.
\<close>

theorem scenario_counterexample:
  "inflow_volume 3600 60 \<noteq> 1
   \<and> estimate Float64 3600 60 [[Fin 0, Fin 1], [Fin 2, Fin 3]]
       \<noteq> Inr ([[Fin 1, Fin 0], [Fin 0, Fin 0]], (0, 0), Fin 1)"
proof -
  have iv: "inflow_volume 3600 60 = 8106479329266893 / 2251799813685248"
    by (simp add: inflow_volume_def rainfall_intensity_def duration_def float_eval)
  have m: "np_min [[Fin 0, Fin 1], [Fin 2, Fin 3]] = Inr (Fin 0)"
    by (simp add: np_min_def)
  have "\<exists>b c d. water_level Float64 (8106479329266893 / 2251799813685248) [[Fin 0, Fin 1], [Fin 2, Fin 3]]
             = Inr [[Fin (8106479329266893 / 2251799813685248), b], [c, d]]"
    by (simp add: water_level_def m float_eval)
  then show ?thesis
    by (auto simp: estimate_def iv split: sum.splits)
qed

section \<open>The size of the resized grid\<close>

lemma MAX_RES_bounds: "0 < MAX_RES m \<and> MAX_RES m \<le> 300"
  by (simp add: MAX_RES_def)

text \<open>One side of the resized grid: \<open>cvRound (py (n * s))\<close> for a factor \<open>s \<le> py (M / n)\<close>.\<close>

lemma resized_side_upper:
  assumes "0 < n" and "0 < M" and "M \<le> 300" and "0 \<le> s" and "s \<le> py (real M / real n)"
  shows "cvRound (py (real n * s)) \<le> int M"
proof -
  let ?e = "(1::real) + 1 / 2 ^ 53"
  have "py (real M / real n) \<le> real M / real n * ?e"
    by (intro py_upper) simp
  then have "s \<le> real M / real n * ?e" using assms(5) by linarith
  then have "real n * s \<le> real n * (real M / real n * ?e)"
    by (intro mult_left_mono) simp_all
  also have "\<dots> = real M * ?e" using assms(1) by simp
  finally have le: "real n * s \<le> real M * ?e" .
  have "py (real n * s) \<le> py (real M * ?e)" using le by (rule py_mono)
  also have "\<dots> \<le> real M * ?e * ?e" by (intro py_upper) simp
  also have "\<dots> < real M + 1 / 2"
  proof -
    have "real M * ?e * ?e = real M + real M * (2 / 2 ^ 53 + 1 / 2 ^ 106)"
      by (simp add: algebra_simps)
    moreover have "real M * (2 / 2 ^ 53 + 1 / 2 ^ 106) \<le> 300 * (2 / 2 ^ 53 + 1 / 2 ^ 106)"
      using assms(3) by (intro mult_right_mono) simp_all
    moreover have "(300::real) * (2 / 2 ^ 53 + 1 / 2 ^ 106) < 1 / 2" by simp
    ultimately show ?thesis by linarith
  qed
  finally have "py (real n * s) < of_int (int M) + 1 / 2" by simp
  then show ?thesis unfolding cvRound_def by (rule rne_le)
qed

lemma resized_side_no_growth:
  assumes "n < 2 ^ 53" and "0 \<le> s" and "s \<le> 1"
  shows "cvRound (py (real n * s)) \<le> int n"
proof -
  have "real n * s \<le> real n * 1" using assms(3) by (intro mult_left_mono) simp_all
  then have "py (real n * s) \<le> py (real n)" by (intro py_mono) simp
  then have "py (real n * s) \<le> of_int (int n)" using py_of_nat [OF assms(1)] by simp
  then have "rne (py (real n * s)) \<le> rne (of_int (int n))" by (rule rne_mono)
  then show ?thesis unfolding cvRound_def by (simp only: rne_of_int)
qed

lemma resized_side_lower:
  assumes "0 < L" and "k \<le> 300" and "real k * real L \<le> real M * real n"
    and "py (real M / real L) \<le> s"
  shows "int k \<le> cvRound (py (real n * s))"
proof -
  let ?d = "(1::real) - 1 / 2 ^ 53"
  have d: "0 \<le> ?d" by simp
  have "real M / real L * ?d \<le> py (real M / real L)" by (intro py_lower) simp
  then have "real M / real L * ?d \<le> s" using assms(4) by linarith
  then have C: "real n * (real M / real L * ?d) \<le> real n * s"
    by (intro mult_left_mono) simp_all
  have "real k \<le> real n * (real M / real L)"
    using assms(1,3) by (simp add: field_simps)
  then have "real k * ?d \<le> real n * (real M / real L) * ?d"
    using d by (rule mult_right_mono)
  then have "real k * ?d \<le> real n * (real M / real L * ?d)"
    by (simp only: mult.assoc)
  then have "real k * ?d \<le> real n * s" using C by (rule order_trans)
  then have "py (real k * ?d) \<le> py (real n * s)" by (rule py_mono)
  moreover have "real k * ?d * ?d \<le> py (real k * ?d)" by (intro py_lower) simp
  moreover have "real k - 1 / 2 < real k * ?d * ?d"
  proof -
    have "real k * ?d * ?d = real k - real k * (2 / 2 ^ 53 - 1 / 2 ^ 106)"
      by (simp add: algebra_simps)
    moreover have "real k * (2 / 2 ^ 53 - 1 / 2 ^ 106) \<le> 300 * (2 / 2 ^ 53 - 1 / 2 ^ 106)"
      using assms(2) by (intro mult_right_mono) simp_all
    moreover have "(300::real) * (2 / 2 ^ 53 - 1 / 2 ^ 106) < 1 / 2" by simp
    ultimately show ?thesis by linarith
  qed
  ultimately have "of_int (int k) - 1 / 2 < py (real n * s)" by simp
  then show ?thesis unfolding cvRound_def by (rule rne_ge)
qed

lemma scale_factor:
  fixes m :: mode and rows cols :: nat
  assumes "0 < rows" and "0 < cols"
  defines "M \<equiv> MAX_RES m"
  defines "s \<equiv> min (py (real M / real rows)) (py (real M / real cols))"
  shows "scale m (rows, cols) = Inr s" and "0 < s"
    and "s \<le> py (real M / real rows)" and "s \<le> py (real M / real cols)"
    and "py (real M / real (max rows cols)) \<le> s"
proof -
  have M: "0 < M" unfolding M_def using MAX_RES_bounds by simp
  show "scale m (rows, cols) = Inr s" using assms(1,2) by (simp add: scale_def s_def M_def)
  have "0 < py (real M / real rows)" using M assms(1) by (intro py_pos) simp
  moreover have "0 < py (real M / real cols)" using M assms(2) by (intro py_pos) simp
  ultimately show "0 < s" by (simp add: s_def)
  show "s \<le> py (real M / real rows)" "s \<le> py (real M / real cols)" by (simp_all add: s_def)
  have "real M / real (max rows cols) \<le> real M / real rows"
    using assms(1) by (intro divide_left_mono) simp_all
  then have a: "py (real M / real (max rows cols)) \<le> py (real M / real rows)" by (rule py_mono)
  have "real M / real (max rows cols) \<le> real M / real cols"
    using assms(2) by (intro divide_left_mono) simp_all
  then have b: "py (real M / real (max rows cols)) \<le> py (real M / real cols)" by (rule py_mono)
  show "py (real M / real (max rows cols)) \<le> s" using a b by (simp add: s_def)
qed

lemma resized_shape_eq:
  fixes m :: mode and rows cols :: nat
  assumes "0 < rows" and "0 < cols"
  defines "s \<equiv> min (py (real (MAX_RES m) / real rows)) (py (real (MAX_RES m) / real cols))"
  shows "resized_shape dp m (rows, cols) =
           (if cvRound (py (real cols * s)) \<le> 0 \<or> cvRound (py (real rows * s)) \<le> 0
            then Inl CvError
            else if (nat (cvRound (py (real rows * s))), nat (cvRound (py (real cols * s))))
                      = (rows, cols)
            then Inr (rows, cols)
            else if \<not> resize_kernel dp then Inl CvError
            else Inr (nat (cvRound (py (real rows * s))), nat (cvRound (py (real cols * s)))))"
  using scale_factor(1,2) [OF assms(1,2), of m] assms(1,2)
  by (simp add: resized_shape_def cv2_resize_shape_def s_def Let_def)

lemma resized_shape_Inr:
  assumes "resized_shape dp m (rows, cols) = Inr (h, w)"
  shows "0 < rows" and "0 < cols"
  using assms
  by (auto simp: resized_shape_def scale_def cv2_resize_shape_def split: if_splits)

text \<open>
  C3, as amended. For an array of a depth that OpenCV can resize (uint8, uint16, int16,
  float32, float64) the resize succeeds whenever neither side of the grid is more than
  \<open>MAX_RES\<close> times the other. Whenever the resize succeeds, both dimensions of the
  result are at most \<open>MAX_RES\<close> (150 or 300, by mode) and the longer one equals
  \<open>MAX_RES\<close>; no dimension exceeds the original one if the original's longer side is at
  least \<open>MAX_RES\<close> (a smaller grid is enlarged); and for an int8 or int32 array it
  succeeds only when the size does not change.
\<close>

theorem resized_shape_bounds:
  "(resize_kernel dp \<and> 0 < rows \<and> 0 < cols
      \<and> rows \<le> MAX_RES m * cols \<and> cols \<le> MAX_RES m * rows
      \<longrightarrow> (\<exists>h w. resized_shape dp m (rows, cols) = Inr (h, w)))
   \<and> (\<forall>h w. resized_shape dp m (rows, cols) = Inr (h, w)
          \<longrightarrow> h \<le> MAX_RES m \<and> w \<le> MAX_RES m \<and> max h w = MAX_RES m
              \<and> (MAX_RES m \<le> max rows cols \<longrightarrow> h \<le> rows \<and> w \<le> cols)
              \<and> (\<not> resize_kernel dp \<longrightarrow> h = rows \<and> w = cols))"
proof (intro conjI impI allI)
  define M where "M = MAX_RES m"
  define s where "s = min (py (real M / real rows)) (py (real M / real cols))"
  assume a: "resize_kernel dp \<and> 0 < rows \<and> 0 < cols
               \<and> rows \<le> MAX_RES m * cols \<and> cols \<le> MAX_RES m * rows"
  then have pos: "0 < rows" "0 < cols" and k: "resize_kernel dp" by simp_all
  have L: "0 < max rows cols" using pos by simp
  have low: "py (real M / real (max rows cols)) \<le> s"
    unfolding s_def M_def by (rule scale_factor(5) [OF pos])
  have "max rows cols \<le> M * cols" using a pos MAX_RES_bounds [of m] by (simp add: M_def)
  then have "real 1 * real (max rows cols) \<le> real M * real cols"
    by (simp only: of_nat_mult [symmetric] of_nat_le_iff mult_1)
  then have "int 1 \<le> cvRound (py (real cols * s))"
    using L low by (intro resized_side_lower [where L = "max rows cols" and M = M]) simp_all
  moreover have "max rows cols \<le> M * rows" using a pos MAX_RES_bounds [of m] by (simp add: M_def)
  then have "real 1 * real (max rows cols) \<le> real M * real rows"
    by (simp only: of_nat_mult [symmetric] of_nat_le_iff mult_1)
  then have "int 1 \<le> cvRound (py (real rows * s))"
    using L low by (intro resized_side_lower [where L = "max rows cols" and M = M]) simp_all
  ultimately show "\<exists>h w. resized_shape dp m (rows, cols) = Inr (h, w)"
    using resized_shape_eq [OF pos, of dp m] k by (simp add: s_def M_def)
next
  fix h w
  define M where "M = MAX_RES m"
  define s where "s = min (py (real M / real rows)) (py (real M / real cols))"
  assume r: "resized_shape dp m (rows, cols) = Inr (h, w)"
  have pos: "0 < rows" "0 < cols" using resized_shape_Inr [OF r] by simp_all
  have M: "0 < M" "M \<le> 300" unfolding M_def using MAX_RES_bounds by simp_all
  have s: "0 < s" "s \<le> py (real M / real rows)" "s \<le> py (real M / real cols)"
    "py (real M / real (max rows cols)) \<le> s"
    unfolding s_def M_def by (rule scale_factor [OF pos])+
  have hw: "0 < cvRound (py (real rows * s))" "0 < cvRound (py (real cols * s))"
    "h = nat (cvRound (py (real rows * s)))" "w = nat (cvRound (py (real cols * s)))"
    using r resized_shape_eq [OF pos, of dp m] by (auto simp: s_def M_def split: if_splits)
  have same: "h = rows \<and> w = cols" if "\<not> resize_kernel dp"
    using r that resized_shape_eq [OF pos, of dp m] by (auto simp: s_def M_def split: if_splits)
  have hM: "cvRound (py (real rows * s)) \<le> int M"
    using pos(1) M s(1,2) by (intro resized_side_upper) simp_all
  have wM: "cvRound (py (real cols * s)) \<le> int M"
    using pos(2) M s(1,3) by (intro resized_side_upper) simp_all
  show hle: "h \<le> MAX_RES m" using hM hw by (simp add: M_def)
  show wle: "w \<le> MAX_RES m" using wM hw by (simp add: M_def)
  show "max h w = MAX_RES m"
  proof -
    have L: "0 < max rows cols" using pos by simp
    have ge: "int M \<le> cvRound (py (real (max rows cols) * s))"
      using L M(2) s(4) by (intro resized_side_lower [where L = "max rows cols" and M = M]) simp_all
    have "M \<le> max h w"
    proof (cases "rows \<le> cols")
      case True
      then have "int M \<le> cvRound (py (real cols * s))" using ge by (simp add: max_def)
      then have "M \<le> w" using hw by simp
      then show ?thesis by simp
    next
      case False
      then have "int M \<le> cvRound (py (real rows * s))" using ge by (simp add: max_def)
      then have "M \<le> h" using hw by simp
      then show ?thesis by simp
    qed
    then show ?thesis using hle wle by (simp add: M_def)
  qed
  have small: "s \<le> 1" if big: "MAX_RES m \<le> max rows cols"
  proof -
    have "real M / real (max rows cols) \<le> 1" using big pos by (simp add: M_def)
    then have "py (real M / real (max rows cols)) \<le> py 1" by (rule py_mono)
    moreover have "py 1 = 1" using py_of_int [of 1] by simp
    moreover have "s \<le> py (real M / real (max rows cols))"
      using s(2,3) by (cases "rows \<le> cols") (simp_all add: max_def)
    ultimately show ?thesis by linarith
  qed
  show "h \<le> rows" if big: "MAX_RES m \<le> max rows cols"
  proof (cases "M \<le> rows")
    case True
    then show ?thesis using hle by (simp add: M_def)
  next
    case False
    then have "rows < 2 ^ 53" using M(2) by simp
    then have "cvRound (py (real rows * s)) \<le> int rows"
      using s(1) small [OF big] by (intro resized_side_no_growth) simp_all
    then show ?thesis using hw by simp
  qed
  show "w \<le> cols" if big: "MAX_RES m \<le> max rows cols"
  proof (cases "M \<le> cols")
    case True
    then show ?thesis using wle by (simp add: M_def)
  next
    case False
    then have "cols < 2 ^ 53" using M(2) by simp
    then have "cvRound (py (real cols * s)) \<le> int cols"
      using s(1) small [OF big] by (intro resized_side_no_growth) simp_all
    then show ?thesis using hw by simp
  qed
  show "h = rows" if "\<not> resize_kernel dp" using same [OF that] by simp
  show "w = cols" if "\<not> resize_kernel dp" using same [OF that] by simp
qed

theorem resized_shape_bounds_witness:
  "resize_kernel CV_32F \<and> (0::nat) < 1000 \<and> (0::nat) < 50 \<and> (1000::nat) \<le> MAX_RES Ringan * 50
   \<and> (50::nat) \<le> MAX_RES Ringan * 1000 \<and> MAX_RES Ringan \<le> max 1000 50
   \<and> resized_shape CV_32F Ringan (1000, 50) = Inr (150, 8)
   \<and> (150::nat) \<le> MAX_RES Ringan \<and> (8::nat) \<le> MAX_RES Ringan
   \<and> max 150 8 = MAX_RES Ringan \<and> (150::nat) \<le> 1000 \<and> (8::nat) \<le> 50"
proof -
  have s: "scale Ringan (1000, 50) = Inr (5404319552844595 / 36028797018963968)"
    by (simp add: scale_def MAX_RES_def float_eval)
  have e: "resized_shape CV_32F Ringan (1000, 50) = Inr (150, 8)"
    by (simp add: resized_shape_def s cv2_resize_shape_def cvRound_def float_eval)
  show ?thesis
    using resized_shape_bounds [of CV_32F 1000 50 Ringan] e by (simp add: MAX_RES_def)
qed

text \<open>
  An int32 raster of 400 by 200 cells makes the resize fail, and one of 150 by 150
  cells is left as it is.
\<close>

lemma resized_shape_int32:
  "resized_shape CV_32S Ringan (400, 200) = Inl CvError
   \<and> resized_shape CV_32S Ringan (150, 150) = Inr (150, 150)"
proof -
  have s: "scale Ringan (400, 200) = Inr (3 / 8)"
    by (simp add: scale_def MAX_RES_def float_eval)
  have t: "scale Ringan (150, 150) = Inr 1"
    by (simp add: scale_def MAX_RES_def float_eval)
  have "resized_shape CV_32S Ringan (400, 200) = Inl CvError"
    by (simp add: resized_shape_def s cv2_resize_shape_def cvRound_def float_eval)
  moreover have "resized_shape CV_32S Ringan (150, 150) = Inr (150, 150)"
    by (simp add: resized_shape_def t cv2_resize_shape_def cvRound_def float_eval)
  ultimately show ?thesis by simp
qed

text \<open>
  C3 as stated fails: a float32 grid of 50 by 50 cells is resized to 150 by 150 cells
  in mode \<open>Ringan\<close>, more than its original dimensions.
\<close>

theorem resized_shape_upsamples_counterexample:
  "resized_shape CV_32F Ringan (50, 50) = Inr (150, 150) \<and> \<not> (150::nat) \<le> 50"
proof -
  have s: "scale Ringan (50, 50) = Inr 3"
    by (simp add: scale_def MAX_RES_def float_eval)
  have "resized_shape CV_32F Ringan (50, 50) = Inr (150, 150)"
    by (simp add: resized_shape_def s cv2_resize_shape_def cvRound_def float_eval)
  then show ?thesis by simp
qed

section \<open>The water level is never negative\<close>

text \<open>
  C4. For every elevation grid without NaN, every dtype and every volume, the
  computation succeeds and the water level of every cell is a number that is at
  least 0. The same holds for every animation frame, whatever the inflow and the
  number of steps.
\<close>

theorem water_level_nonneg:
  assumes "no_nan elevation" and "i < length elevation" and "j < length (elevation ! i)"
  shows "(\<exists>w. water_level d volume elevation = Inr w \<and> fle (Fin 0) (w ! i ! j))
       \<and> (\<forall>k < steps. \<exists>w. frames d inflow steps elevation ! k = Inr w \<and> fle (Fin 0) (w ! i ! j))"
proof -
  have nonneg: "\<exists>w. water_level d v elevation = Inr w \<and> fle (Fin 0) (w ! i ! j)" for v
  proof -
    obtain w e where "water_level d v elevation = Inr w"
      and "w ! i ! j = Fin (max 0 (rnd d (rnd d (rnd d v - e) + Min (cells elevation))))"
      using water_level_cell [OF assms] by blast
    then show ?thesis by simp
  qed
  then show ?thesis by (simp add: frames_nth)
qed

theorem water_level_nonneg_witness:
  "no_nan [[Fin 0, Fin 1], [Fin 2, Fin 3]]
   \<and> (\<exists>w. water_level Float64 5 [[Fin 0, Fin 1], [Fin 2, Fin 3]] = Inr w
          \<and> fle (Fin 0) (w ! 1 ! 0))
   \<and> (\<exists>w. frames Float64 5 20 [[Fin 0, Fin 1], [Fin 2, Fin 3]] ! 3 = Inr w
          \<and> fle (Fin 0) (w ! 1 ! 0))"
proof -
  have h: "no_nan [[Fin 0, Fin 1], [Fin 2, Fin 3]]" by (simp add: no_nan_def)
  show ?thesis
    using h water_level_nonneg [OF h, of 1 0 Float64 5 20 5] by simp
qed

section \<open>The lowest cell holds the highest water level\<close>

text \<open>
  C5. For every elevation grid without NaN and every inflow depth (in particular every
  strictly positive one), a cell at which the grid attains its minimum elevation
  attains the maximum of the water level grid: every cell's level is at most the
  level of that cell.
\<close>

theorem minimum_cell_has_maximum_level:
  assumes "no_nan elevation"
    and "i < length elevation" and "j < length (elevation ! i)"
    and "elevation ! i ! j = Fin (Min (cells elevation))"
    and "i' < length elevation" and "j' < length (elevation ! i')"
  shows "\<exists>w. water_level d volume elevation = Inr w \<and> fle (w ! i' ! j') (w ! i ! j)"
proof -
  let ?m = "Min (cells elevation)"
  obtain w e where w: "water_level d volume elevation = Inr w"
    "elevation ! i ! j = Fin e"
    "w ! i ! j = Fin (max 0 (rnd d (rnd d (rnd d volume - e) + ?m)))"
    using water_level_cell [OF assms(1,2,3)] by blast
  obtain w' e' where w': "water_level d volume elevation = Inr w'"
    "elevation ! i' ! j' = Fin e'"
    "w' ! i' ! j' = Fin (max 0 (rnd d (rnd d (rnd d volume - e') + ?m)))"
    using water_level_cell [OF assms(1,5,6)] by blast
  have "e = ?m" using w(2) assms(4) by simp
  moreover have "e' \<in> cells elevation"
    using cell_Fin [OF assms(1,5,6)] w'(2) by auto
  then have "?m \<le> e'" using finite_cells by (intro Min_le)
  ultimately have "max 0 (rnd d (rnd d (rnd d volume - e') + ?m))
                     \<le> max 0 (rnd d (rnd d (rnd d volume - e) + ?m))"
    by (intro level_antimono_elevation) simp
  moreover have "w' = w" using w(1) w'(1) by simp
  ultimately show ?thesis using w w' by simp
qed

theorem minimum_cell_has_maximum_level_witness:
  "no_nan [[Fin 2, Fin 1], [Fin 1, Fin 3]]
   \<and> [[Fin 2, Fin 1], [Fin 1, Fin 3]] ! 1 ! 0 = Fin (Min (cells [[Fin 2, Fin 1], [Fin 1, Fin 3]]))
   \<and> (\<exists>w. water_level Float32 (1 / 2) [[Fin 2, Fin 1], [Fin 1, Fin 3]] = Inr w
          \<and> fle (w ! 0 ! 1) (w ! 1 ! 0))"
proof -
  let ?E = "[[Fin 2, Fin 1], [Fin 1, Fin 3]]"
  have h: "no_nan ?E" by (simp add: no_nan_def)
  have "cells ?E = {2, 1, 3}" by (auto simp: cells_def)
  then have m: "?E ! 1 ! 0 = Fin (Min (cells ?E))" by simp
  show ?thesis
    using h m minimum_cell_has_maximum_level [OF h _ _ m, of 0 1 Float32 "1 / 2"]
    by simp
qed

section \<open>Monotonicity in the time fraction\<close>

text \<open>
  C6. For a fixed elevation grid without NaN and fixed rainfall parameters (intensity
  and duration not negative), the water level at every cell does not decrease when
  the time fraction grows: for \<open>t1 \<le> t2\<close> the level computed for \<open>t1\<close> is at most
  the level computed for \<open>t2\<close>; in particular an earlier animation frame is
  cellwise at most a later one. The inflow depth grows with the time fraction, and the
  level grows with the inflow depth (\<open>water_level_monotone_in_volume\<close>).
\<close>

theorem water_level_monotone_in_time:
  assumes "no_nan elevation" and "i < length elevation" and "j < length (elevation ! i)"
    and "0 \<le> r" and "0 \<le> dm"
  shows "(t1 \<le> t2 \<longrightarrow>
           (\<exists>w1 w2. water_level d (volume_t (inflow_volume r dm) t1) elevation = Inr w1
              \<and> water_level d (volume_t (inflow_volume r dm) t2) elevation = Inr w2
              \<and> fle (w1 ! i ! j) (w2 ! i ! j)))
       \<and> (k1 \<le> k2 \<and> k2 < steps \<longrightarrow>
           (\<exists>w1 w2. frames d (inflow_volume r dm) steps elevation ! k1 = Inr w1
              \<and> frames d (inflow_volume r dm) steps elevation ! k2 = Inr w2
              \<and> fle (w1 ! i ! j) (w2 ! i ! j)))"
proof -
  have mono: "\<exists>w1 w2. water_level d (volume_t (inflow_volume r dm) a) elevation = Inr w1
              \<and> water_level d (volume_t (inflow_volume r dm) b) elevation = Inr w2
              \<and> fle (w1 ! i ! j) (w2 ! i ! j)" if "a \<le> b" for a b
  proof -
    have "inflow_volume r dm * a \<le> inflow_volume r dm * b"
      using inflow_volume_nonneg [OF assms(4,5)] that by (rule mult_left_mono [rotated])
    then have "volume_t (inflow_volume r dm) a \<le> volume_t (inflow_volume r dm) b"
      unfolding volume_t_def by (rule py_mono)
    then show ?thesis by (rule water_level_monotone_in_volume [OF assms(1,2,3)])
  qed
  have "\<exists>w1 w2. frames d (inflow_volume r dm) steps elevation ! k1 = Inr w1
              \<and> frames d (inflow_volume r dm) steps elevation ! k2 = Inr w2
              \<and> fle (w1 ! i ! j) (w2 ! i ! j)" if "k1 \<le> k2" "k2 < steps"
  proof -
    have "time_fraction (k1 + 1) steps \<le> time_fraction (k2 + 1) steps"
      using that(1) by (intro time_fraction_mono) simp
    then show ?thesis using mono that by (simp add: frames_nth)
  qed
  then show ?thesis using mono by blast
qed

theorem water_level_monotone_in_time_witness:
  "no_nan [[Fin 2, Fin 1], [Fin 1, Fin 3]] \<and> (0::int) \<le> 300 \<and> (0::int) \<le> 120
   \<and> (1::real) / 4 \<le> 1 / 2 \<and> (2::nat) \<le> 3 \<and> (3::nat) < 20
   \<and> (\<exists>w1 w2.
         water_level Float64 (volume_t (inflow_volume 300 120) (1 / 4))
           [[Fin 2, Fin 1], [Fin 1, Fin 3]] = Inr w1
         \<and> water_level Float64 (volume_t (inflow_volume 300 120) (1 / 2))
           [[Fin 2, Fin 1], [Fin 1, Fin 3]] = Inr w2
         \<and> fle (w1 ! 0 ! 1) (w2 ! 0 ! 1))
   \<and> (\<exists>w1 w2.
         frames Float64 (inflow_volume 300 120) 20 [[Fin 2, Fin 1], [Fin 1, Fin 3]] ! 2 = Inr w1
         \<and> frames Float64 (inflow_volume 300 120) 20 [[Fin 2, Fin 1], [Fin 1, Fin 3]] ! 3 = Inr w2
         \<and> fle (w1 ! 0 ! 1) (w2 ! 0 ! 1))"
proof -
  let ?E = "[[Fin 2, Fin 1], [Fin 1, Fin 3]]"
  have h: "no_nan ?E" by (simp add: no_nan_def)
  show ?thesis
    using h water_level_monotone_in_time [OF h, of 0 1 300 120 "1 / 4" "1 / 2" Float64 2 3 20]
    by simp
qed

section \<open>Coordinates of the first and last column and row\<close>

lemma length_np_linspace [simp]: "length (np_linspace start stop num) = num"
  by (simp add: np_linspace_def Let_def)

lemma np_linspace_first:
  assumes "0 < num"
  shows "np_linspace start stop num ! 0 = py start"
proof (cases "num = 1")
  case True
  then show ?thesis by (simp add: np_linspace_def Let_def)
next
  case False
  then have n: "1 < num" "0 \<noteq> num - 1" "0 < int num - 1" using assms by simp_all
  have z: "[0..<num] ! 0 = 0" using assms by simp
  show ?thesis
    using n assms by (simp add: np_linspace_def Let_def nth_list_update z)
qed

lemma np_linspace_last:
  assumes "2 \<le> num"
  shows "np_linspace start stop num ! (num - 1) = stop"
  using assms by (simp add: np_linspace_def Let_def)

lemma coordinates_X:
  assumes "i < rows"
  shows "fst (coordinates b (rows, cols)) ! i = np_linspace (b_left b) (b_right b) cols"
  using assms by (simp add: coordinates_def np_meshgrid_def)

lemma coordinates_Y:
  assumes "i < rows" and "j < cols"
  shows "snd (coordinates b (rows, cols)) ! i ! j = np_linspace (b_top b) (b_bottom b) rows ! i"
  using assms by (simp add: coordinates_def np_meshgrid_def)

text \<open>
  C7, as amended. For a grid of \<open>rows\<close> rows and \<open>cols\<close> columns with bounds left = 0,
  right = 10, top = 10, bottom = 0: X of column 0 is 0 and Y of row 0 is 10; X of
  the last column is 10 when there are at least two columns, and Y of the last row
  is 0 when there are at least two rows.
\<close>

theorem coordinates_endpoints:
  assumes "i < rows" and "j < cols"
  shows "fst (coordinates \<lparr>b_left = 0, b_right = 10, b_top = 10, b_bottom = 0\<rparr> (rows, cols)) ! i ! 0 = 0
       \<and> snd (coordinates \<lparr>b_left = 0, b_right = 10, b_top = 10, b_bottom = 0\<rparr> (rows, cols)) ! 0 ! j = 10
       \<and> (2 \<le> cols \<longrightarrow>
            fst (coordinates \<lparr>b_left = 0, b_right = 10, b_top = 10, b_bottom = 0\<rparr> (rows, cols))
              ! i ! (cols - 1) = 10)
       \<and> (2 \<le> rows \<longrightarrow>
            snd (coordinates \<lparr>b_left = 0, b_right = 10, b_top = 10, b_bottom = 0\<rparr> (rows, cols))
              ! (rows - 1) ! j = 0)"
proof -
  let ?b = "\<lparr>b_left = 0, b_right = 10, b_top = 10, b_bottom = 0\<rparr>"
  have ten: "py 10 = 10" using py_of_int [of 10] by simp
  have "fst (coordinates ?b (rows, cols)) ! i ! 0 = 0"
    using assms by (simp add: coordinates_X np_linspace_first)
  moreover have "snd (coordinates ?b (rows, cols)) ! 0 ! j = 10"
    using assms by (simp add: coordinates_Y np_linspace_first ten)
  moreover have "2 \<le> cols \<longrightarrow> fst (coordinates ?b (rows, cols)) ! i ! (cols - 1) = 10"
    using assms np_linspace_last [of cols 0 10] by (simp add: coordinates_X)
  moreover have "2 \<le> rows \<longrightarrow> snd (coordinates ?b (rows, cols)) ! (rows - 1) ! j = 0"
    using assms np_linspace_last [of rows 10 0] by (simp add: coordinates_Y)
  ultimately show ?thesis by blast
qed

theorem coordinates_endpoints_witness:
  "(1::nat) < 3 \<and> (2::nat) < 4 \<and> (2::nat) \<le> 4 \<and> (2::nat) \<le> 3
   \<and> fst (coordinates \<lparr>b_left = 0, b_right = 10, b_top = 10, b_bottom = 0\<rparr> (3, 4)) ! 1 ! 0 = 0
   \<and> snd (coordinates \<lparr>b_left = 0, b_right = 10, b_top = 10, b_bottom = 0\<rparr> (3, 4)) ! 0 ! 2 = 10
   \<and> fst (coordinates \<lparr>b_left = 0, b_right = 10, b_top = 10, b_bottom = 0\<rparr> (3, 4)) ! 1 ! (4 - 1) = 10
   \<and> snd (coordinates \<lparr>b_left = 0, b_right = 10, b_top = 10, b_bottom = 0\<rparr> (3, 4)) ! (3 - 1) ! 2 = 0"
  using coordinates_endpoints [of 1 3 2 4] by simp

text \<open>
  C7 as stated fails for a grid with one row and one column: the only column is at
  X = 0, not 10, and the only row is at Y = 10, not 0.
\<close>

theorem coordinates_single_column_counterexample:
  "fst (coordinates \<lparr>b_left = 0, b_right = 10, b_top = 10, b_bottom = 0\<rparr> (1, 1)) ! 0 ! (1 - 1) \<noteq> 10
   \<and> snd (coordinates \<lparr>b_left = 0, b_right = 10, b_top = 10, b_bottom = 0\<rparr> (1, 1)) ! (1 - 1) ! 0 \<noteq> 0"
proof -
  have ten: "py 10 = 10" using py_of_int [of 10] by simp
  have "np_linspace 0 10 1 = [0]" by (simp add: np_linspace_def Let_def)
  moreover have "np_linspace 10 0 1 = [10]" by (simp add: np_linspace_def Let_def ten)
  ultimately show ?thesis by (simp add: coordinates_def np_meshgrid_def)
qed

section \<open>Loading replaces every NaN\<close>

text \<open>
  C8. For every raster with at least one cell that is not NaN, loading succeeds (no
  error is raised) and returns a grid of the same shape without any NaN: each NaN
  cell holds the minimum of the raster's non-NaN values and every other cell is
  unchanged. The replacement happens in \<open>load_dem\<close>, before any other computation.
\<close>

theorem load_dem_replaces_nan:
  assumes "cells raw \<noteq> {}"
  shows "\<exists>g. load_dem raw = Inr g \<and> no_nan g \<and> length g = length raw
           \<and> (\<forall>i < length raw. length (g ! i) = length (raw ! i)
                \<and> (\<forall>j < length (raw ! i).
                      g ! i ! j = (if raw ! i ! j = NaN then Fin (Min (cells raw))
                                   else raw ! i ! j)))"
proof -
  let ?g = "np_nan_to_num raw (Fin (Min (cells raw)))"
  have l: "load_dem raw = Inr ?g"
    by (simp add: load_dem_def np_nanmin_cells [OF assms])
  have n: "no_nan ?g"
    by (auto simp: no_nan_def np_nan_to_num_def split: npfloat.splits)
  have c: "\<forall>i < length raw. length (?g ! i) = length (raw ! i)
             \<and> (\<forall>j < length (raw ! i).
                   ?g ! i ! j = (if raw ! i ! j = NaN then Fin (Min (cells raw))
                                 else raw ! i ! j))"
    by (auto simp: np_nan_to_num_def split: npfloat.splits)
  have "length ?g = length raw" by (simp add: np_nan_to_num_def)
  then show ?thesis using l n c by blast
qed

theorem load_dem_replaces_nan_witness:
  "cells [[NaN, Fin 3], [Fin 2, NaN]] \<noteq> {}
   \<and> load_dem [[NaN, Fin 3], [Fin 2, NaN]] = Inr [[Fin 2, Fin 3], [Fin 2, Fin 2]]"
proof -
  have h: "cells [[NaN, Fin 3], [Fin 2, NaN]] \<noteq> {}" by (auto simp: cells_def)
  have m: "Min (cells [[NaN, Fin 3], [Fin 2, NaN]]) = 2"
  proof -
    have "cells [[NaN, Fin 3], [Fin 2, NaN]] = {3, 2}" by (auto simp: cells_def)
    then show ?thesis by simp
  qed
  obtain g where g: "load_dem [[NaN, Fin 3], [Fin 2, NaN]] = Inr g"
    using load_dem_replaces_nan [OF h] by blast
  then have "g = [[Fin 2, Fin 3], [Fin 2, Fin 2]]"
    using h m by (simp add: load_dem_def np_nanmin_cells np_nan_to_num_def)
  then show ?thesis using h g by simp
qed

text \<open>
  A raster whose cells are all NaN is outside that statement: \<open>np.nanmin\<close> is NaN
  there, so every cell is replaced by NaN and the grid stays as it was.
\<close>

lemma load_dem_all_nan:
  "load_dem [[NaN, NaN], [NaN, NaN]] = Inr [[NaN, NaN], [NaN, NaN]]"
  by (simp add: load_dem_def np_nanmin_def np_nan_to_num_def)

section \<open>The peak value\<close>

text \<open>
  C9, as amended. For every rectangular elevation grid without NaN, every cell of the
  water level grid is at most the peak value, and the peak value is
  \<open>max(0, (inflowDepth - minE) + minE)\<close> evaluated in floating point: it depends on
  the terrain only through its minimum elevation \<open>minE\<close>. For a float64 grid whose
  minimum elevation is 0 (and rainfall parameters that are not negative) it is
  exactly the inflow depth.
\<close>

theorem peak_value_from_minimum:
  assumes "no_nan elevation" and "rect elevation c" and "0 < c" and "elevation \<noteq> []"
  shows "\<exists>w pos. estimate d r dm elevation
             = Inr (w, pos, Fin (max 0 (rnd d (rnd d (rnd d (inflow_volume r dm)
                                   - Min (cells elevation)) + Min (cells elevation)))))
           \<and> (\<forall>i < length w. \<forall>j < c.
                 fle (w ! i ! j) (Fin (max 0 (rnd d (rnd d (rnd d (inflow_volume r dm)
                                   - Min (cells elevation)) + Min (cells elevation))))))
           \<and> (d = Float64 \<and> 0 \<le> r \<and> 0 \<le> dm \<and> Min (cells elevation) = 0 \<longrightarrow>
                 estimate d r dm elevation = Inr (w, pos, Fin (inflow_volume r dm)))"
proof -
  let ?m = "Min (cells elevation)"
  let ?v = "inflow_volume r dm"
  let ?top = "max 0 (rnd d (rnd d (rnd d ?v - ?m) + ?m))"
  obtain w i j where wl: "water_level d ?v elevation = Inr w"
    and e: "estimate d r dm elevation = Inr (w, (i, j), w ! i ! j)"
    and w: "rect w c" "length w = length elevation" "i < length w" "j < c"
    and fm: "first_max (concat w) (i * c + j)"
    using estimate_first_max [OF assms] by blast
  have rows: "length (elevation ! a) = c" if "a < length elevation" for a
    using assms(2) that by (simp add: rect_def)
  have len: "length (concat w) = length w * c" using w(1) by (rule length_concat_rect)
  \<comment> \<open>a cell that holds the minimum elevation\<close>
  have "length (concat elevation) = length elevation * c"
    using assms(2) by (rule length_concat_rect)
  then have "concat elevation \<noteq> []"
    using assms(3,4) by (metis length_0_conv mult_is_0 less_numeral_extra(3))
  then obtain x where x: "x \<in> set (concat elevation)" by (cases "concat elevation") auto
  then have "x \<noteq> NaN" using no_nan_concat [OF assms(1)] by blast
  then obtain x0 where "x = Fin x0" by (cases x) auto
  then have "x0 \<in> cells elevation" using x by (simp add: cells_def)
  then have "cells elevation \<noteq> {}" by auto
  then have "?m \<in> cells elevation" using finite_cells by (intro Min_in)
  then have "Fin ?m \<in> set (concat elevation)" by (simp add: cells_def)
  then obtain row where row: "row \<in> set elevation" "Fin ?m \<in> set row" by auto
  then obtain a b where ab: "a < length elevation" "elevation ! a = row" "b < length row" "row ! b = Fin ?m"
    by (metis in_set_conv_nth)
  have b: "b < length (elevation ! a)" and b': "b < c" using ab rows by auto
  have mincell: "elevation ! a ! b = Fin ?m" using ab by simp
  \<comment> \<open>its water level\<close>
  obtain w0 e0 where w0: "water_level d ?v elevation = Inr w0" "elevation ! a ! b = Fin e0"
    "w0 ! a ! b = Fin (max 0 (rnd d (rnd d (rnd d ?v - e0) + ?m)))"
    using water_level_cell [OF assms(1) ab(1) b] by blast
  have wab: "w ! a ! b = Fin ?top" using w0 wl mincell by simp
  \<comment> \<open>every cell is at most that level\<close>
  have below: "fle (w ! i' ! j') (Fin ?top)" if "i' < length w" "j' < c" for i' j'
  proof -
    have i': "i' < length elevation" and j': "j' < length (elevation ! i')"
      using that w(2) rows by auto
    obtain w1 e1 where w1: "water_level d ?v elevation = Inr w1" "elevation ! i' ! j' = Fin e1"
      "w1 ! i' ! j' = Fin (max 0 (rnd d (rnd d (rnd d ?v - e1) + ?m)))"
      using water_level_cell [OF assms(1) i' j'] by blast
    have "e1 \<in> cells elevation" using cell_Fin [OF assms(1) i' j'] w1(2) by auto
    then have "?m \<le> e1" using finite_cells by (intro Min_le)
    then have "max 0 (rnd d (rnd d (rnd d ?v - e1) + ?m)) \<le> ?top"
      by (rule level_antimono_elevation)
    then show ?thesis using w1 wl by simp
  qed
  \<comment> \<open>the peak is at least that level\<close>
  have "a * c + b < Suc a * c" using b' by simp
  also have "\<dots> \<le> length w * c" using ab(1) w(2) by (intro mult_le_mono1) simp
  finally have "a * c + b < length (concat w)" using len by simp
  then have "fle (concat w ! (a * c + b)) (concat w ! (i * c + j))"
    using fm by (simp add: first_max_def)
  moreover have "concat w ! (a * c + b) = w ! a ! b"
    using w(1) ab(1) w(2) b' by (intro concat_rect_nth) simp_all
  moreover have "concat w ! (i * c + j) = w ! i ! j" using w(1,3,4) by (rule concat_rect_nth)
  ultimately have "fle (Fin ?top) (w ! i ! j)" using wab by simp
  then have peakv: "w ! i ! j = Fin ?top" using below [OF w(3,4)] by (intro fle_antisym)
  have exact: "Fin ?top = Fin ?v" if "d = Float64" "0 \<le> r" "0 \<le> dm" "?m = 0"
  proof -
    have v: "?v = py (rainfall_intensity r * py (of_int (duration dm)))"
      by (simp add: inflow_volume_def)
    have "rnd d ?v = ?v"
      unfolding v using that(1) by (simp add: rnd_def py_def round_to_idem)
    then have "rnd d (rnd d (rnd d ?v - ?m) + ?m) = ?v" using that(4) by simp
    moreover have "0 \<le> ?v" using that(2,3) by (rule inflow_volume_nonneg)
    ultimately show ?thesis by simp
  qed
  show ?thesis using e peakv below exact by (metis (no_types, lifting))
qed

theorem peak_value_from_minimum_witness:
  "no_nan [[Fin 0, Fin 1], [Fin 2, Fin 3]] \<and> rect [[Fin 0, Fin 1], [Fin 2, Fin 3]] 2
   \<and> Min (cells [[Fin 0, Fin 1], [Fin 2, Fin 3]]) = 0
   \<and> (\<exists>w pos. estimate Float64 3600 60 [[Fin 0, Fin 1], [Fin 2, Fin 3]]
                   = Inr (w, pos, Fin (inflow_volume 3600 60))
          \<and> (\<forall>i < length w. \<forall>j < 2. fle (w ! i ! j) (Fin (inflow_volume 3600 60))))"
proof -
  let ?E = "[[Fin 0, Fin 1], [Fin 2, Fin 3]]"
  let ?v = "inflow_volume 3600 60"
  let ?top = "max 0 (rnd Float64 (rnd Float64 (rnd Float64 ?v - Min (cells ?E)) + Min (cells ?E)))"
  have h: "no_nan ?E" by (simp add: no_nan_def)
  have r: "rect ?E 2" by (simp add: rect_def)
  have "cells ?E = {0, 1, 2, 3}" by (auto simp: cells_def)
  then have m: "Min (cells ?E) = 0" by simp
  have c2: "(0::nat) < 2" by simp
  have ne: "?E \<noteq> []" by simp
  obtain w pos where e: "estimate Float64 3600 60 ?E = Inr (w, pos, Fin ?top)"
    and b: "\<forall>i < length w. \<forall>j < 2. fle (w ! i ! j) (Fin ?top)"
    and x: "Float64 = Float64 \<and> (0::int) \<le> 3600 \<and> (0::int) \<le> 60 \<and> Min (cells ?E) = 0
            \<longrightarrow> estimate Float64 3600 60 ?E = Inr (w, pos, Fin ?v)"
    using peak_value_from_minimum [OF h r c2 ne, of Float64 3600 60] by blast
  have e': "estimate Float64 3600 60 ?E = Inr (w, pos, Fin ?v)" using x m by simp
  then have "?top = ?v" using e by simp
  then show ?thesis using h r m e' b by metis
qed

text \<open>
  C9 as stated fails: for a one-cell float64 grid of elevation 1000 and the default
  rainfall (300 mm/h for 120 minutes) the inflow depth is the float 0.6, but the only
  cell, which is the peak, holds \<open>(0.6 - 1000) + 1000 = 0.6000000000000227\<close>, which is
  larger than the inflow depth.
\<close>

theorem peak_value_counterexample:
  "estimate Float64 300 120 [[Fin 1000]]
     = Inr ([[Fin (5277655813325 / 8796093022208)]], (0, 0), Fin (5277655813325 / 8796093022208))
   \<and> inflow_volume 300 120 = 5404319552844595 / 9007199254740992
   \<and> \<not> fle (Fin (5277655813325 / 8796093022208)) (Fin (inflow_volume 300 120))"
proof -
  have iv: "inflow_volume 300 120 = 5404319552844595 / 9007199254740992"
    by (simp add: inflow_volume_def rainfall_intensity_def duration_def float_eval)
  have m: "np_min [[Fin 1000]] = Inr (Fin 1000)" by (simp add: np_min_def)
  have w: "water_level Float64 (5404319552844595 / 9007199254740992) [[Fin 1000]]
             = Inr [[Fin (5277655813325 / 8796093022208)]]"
    by (simp add: water_level_def m float_eval)
  have p: "peak [[Fin (5277655813325 / 8796093022208)]]
             = Inr ((0, 0), Fin (5277655813325 / 8796093022208))"
    by (simp add: peak_def np_argmax_def np_unravel_index_def shape_def index2_def)
  show ?thesis by (simp add: estimate_def iv w p)
qed

section \<open>The peak under ties\<close>

text \<open>
  C10. For every rectangular elevation grid without NaN, the estimate succeeds, its grid
  is the water level grid, and the reported peak position \<open>(i, j)\<close> holds the maximum water level; every cell with the
  same level has a row-major index \<open>i' * c + j'\<close> that is not smaller than the peak's:
  the peak is the first cell of maximal level scanning row by row, left to right.
\<close>

theorem peak_is_first_maximum:
  assumes "no_nan elevation" and "rect elevation c" and "0 < c" and "elevation \<noteq> []"
  shows "\<exists>w i j. water_level d (inflow_volume r dm) elevation = Inr w
           \<and> estimate d r dm elevation = Inr (w, (i, j), w ! i ! j)
           \<and> i < length w \<and> j < c
           \<and> (\<forall>i' < length w. \<forall>j' < c.
                 fle (w ! i' ! j') (w ! i ! j)
                 \<and> (w ! i' ! j' = w ! i ! j \<longrightarrow> i * c + j \<le> i' * c + j'))"
proof -
  obtain w i j where wl: "water_level d (inflow_volume r dm) elevation = Inr w"
    and e: "estimate d r dm elevation = Inr (w, (i, j), w ! i ! j)"
    and w: "rect w c" "i < length w" "j < c" and fm: "first_max (concat w) (i * c + j)"
    using estimate_first_max [OF assms] by blast
  have len: "length (concat w) = length w * c" using w(1) by (rule length_concat_rect)
  have top: "concat w ! (i * c + j) = w ! i ! j" using w by (rule concat_rect_nth)
  have "fle (w ! i' ! j') (w ! i ! j) \<and> (w ! i' ! j' = w ! i ! j \<longrightarrow> i * c + j \<le> i' * c + j')"
    if lt: "i' < length w" "j' < c" for i' j'
  proof -
    have cell: "concat w ! (i' * c + j') = w ! i' ! j'" using w(1) lt by (rule concat_rect_nth)
    have "i' * c + j' < Suc i' * c" using lt(2) by simp
    also have "\<dots> \<le> length w * c" using lt(1) by (intro mult_le_mono1) simp
    finally have idx: "i' * c + j' < length (concat w)" using len by simp
    then have "fle (w ! i' ! j') (w ! i ! j)"
      using fm cell top by (auto simp: first_max_def)
    moreover have "i * c + j \<le> i' * c + j'" if "w ! i' ! j' = w ! i ! j"
    proof (rule ccontr)
      assume "\<not> i * c + j \<le> i' * c + j'"
      then have "concat w ! (i' * c + j') \<noteq> concat w ! (i * c + j)"
        using fm by (simp add: first_max_def)
      then show False using that cell top by simp
    qed
    ultimately show ?thesis by blast
  qed
  then show ?thesis using wl e w by blast
qed

theorem peak_is_first_maximum_witness:
  "no_nan [[Fin 5, Fin 1], [Fin 1, Fin 3]] \<and> rect [[Fin 5, Fin 1], [Fin 1, Fin 3]] 2
   \<and> (\<exists>w i j. water_level Float64 (inflow_volume 3600 60) [[Fin 5, Fin 1], [Fin 1, Fin 3]] = Inr w
         \<and> estimate Float64 3600 60 [[Fin 5, Fin 1], [Fin 1, Fin 3]] = Inr (w, (i, j), w ! i ! j)
         \<and> i < length w \<and> j < 2
         \<and> (\<forall>i' < length w. \<forall>j' < 2.
               fle (w ! i' ! j') (w ! i ! j)
               \<and> (w ! i' ! j' = w ! i ! j \<longrightarrow> i * 2 + j \<le> i' * 2 + j')))"
proof -
  have h: "no_nan [[Fin 5, Fin 1], [Fin 1, Fin 3]]" by (simp add: no_nan_def)
  have r: "rect [[Fin 5, Fin 1], [Fin 1, Fin 3]] 2" by (simp add: rect_def)
  show ?thesis
    using h r peak_is_first_maximum [OF h r, of Float64 3600 60] by simp
qed

end
